theory Spec2Isabelle
  imports Main "HOL-Library.Word" "HOL-Library.AList"
begin

section \<open>JavaScript values held by the repair-shop store\<close>

text \<open>
  The store of \<^verbatim>\<open>src/app/page.tsx\<close> keeps four collections and mirrors them as JSON text
  under one key of the browser's local storage. The TypeScript interfaces are erased at
  run time and \<^verbatim>\<open>importAll\<close> adopts whatever \<^verbatim>\<open>JSON.parse\<close> returns, so the
  collections are modelled as plain JavaScript values.

  A string is a sequence of UTF-16 code units. A finite number is kept in the decimal form
  that \<^verbatim>\<open>Number::toString\<close> works with: the significant digits \<open>d\<^sub>1 \<dots> d\<^sub>k\<close> (no leading
  and no trailing zero) and the exponent \<open>n\<close>, standing for \<open>0.d\<^sub>1 \<dots> d\<^sub>k \<times> 10\<^sup>n\<close>; zero has
  no digits. Rounding of a decimal to the nearest binary64 value and the sign of zero are
  outside the model. An object is the list of its own properties in the order they were
  created, which is the order of enumeration for the property names of the program (a
  name that is an array index, enumerated first, is not treated apart).
\<close>

type_synonym jschar = "16 word"
type_synonym jstring = "jschar list"

definition ch :: "char \<Rightarrow> jschar" where
  "ch c = of_nat (of_char c)"

definition js :: "string \<Rightarrow> jstring" where
  "js s = map ch s"

datatype jsnum = NaN | PosInfinity | NegInfinity | Fin bool "nat list" int

datatype jsval =
    JUndefined
  | JNull
  | JBool bool
  | JNum jsnum
  | JStr jstring
  | JArr "jsval list"
  | JObj "(jstring \<times> jsval) list"

type_synonym props = "(jstring \<times> jsval) list"

datatype error = TypeError | SyntaxError

definition bindE :: "error + 'a \<Rightarrow> ('a \<Rightarrow> error + 'b) \<Rightarrow> error + 'b" where
  "bindE m f = (case m of Inl e \<Rightarrow> Inl e | Inr x \<Rightarrow> f x)"

subsection \<open>Numbers and strings as text\<close>

fun dec :: "nat \<Rightarrow> nat list" where
  "dec n = (if n < 10 then [n] else dec (n div 10) @ [n mod 10])"

declare dec.simps [simp del]

definition digit_char :: "nat \<Rightarrow> jschar" where
  "digit_char d = of_nat (48 + d)"

definition digits_str :: "nat list \<Rightarrow> jstring" where
  "digits_str ds = map digit_char ds"

definition nat_str :: "nat \<Rightarrow> jstring" where
  "nat_str n = digits_str (dec n)"

text \<open>
  \<^verbatim>\<open>Number::toString\<close> of a positive finite number with digits \<open>ds\<close> (\<open>k\<close> of them) and
  exponent \<open>n\<close>: plain digits with zeros appended when \<open>k \<le> n \<le> 21\<close>, a decimal point
  inside the digits when \<open>0 < n < k\<close>, \<^verbatim>\<open>0.\<close> and zeros in front when \<open>-6 < n \<le> 0\<close>, and
  exponent notation otherwise.
\<close>

definition pos_str :: "nat list \<Rightarrow> int \<Rightarrow> jstring" where
  "pos_str ds n =
     (let k = int (length ds) in
      if k \<le> n \<and> n \<le> 21 then digits_str ds @ replicate (nat (n - k)) (ch CHR ''0'')
      else if 0 < n \<and> n \<le> 21 then
        digits_str (take (nat n) ds) @ [ch CHR ''.''] @ digits_str (drop (nat n) ds)
      else if -6 < n \<and> n \<le> 0 then
        js ''0.'' @ replicate (nat (- n)) (ch CHR ''0'') @ digits_str ds
      else
        digits_str (take 1 ds)
        @ (if k = 1 then [] else [ch CHR ''.''] @ digits_str (drop 1 ds))
        @ [ch CHR ''e'', if 0 \<le> n - 1 then ch CHR ''+'' else ch CHR ''-'']
        @ nat_str (nat \<bar>n - 1\<bar>))"

fun num_str :: "jsnum \<Rightarrow> jstring" where
  "num_str NaN = js ''NaN''"
| "num_str PosInfinity = js ''Infinity''"
| "num_str NegInfinity = js ''-Infinity''"
| "num_str (Fin neg ds n) =
     (if ds = [] then js ''0''
      else (if neg then [ch CHR ''-''] else []) @ pos_str ds n)"

fun is_finite :: "jsnum \<Rightarrow> bool" where
  "is_finite (Fin neg ds n) = True"
| "is_finite x = False"

definition is_high :: "jschar \<Rightarrow> bool" where
  "is_high c = (0xD800 \<le> c \<and> c \<le> 0xDBFF)"

definition is_low :: "jschar \<Rightarrow> bool" where
  "is_low c = (0xDC00 \<le> c \<and> c \<le> 0xDFFF)"

definition hex_char :: "nat \<Rightarrow> jschar" where
  "hex_char d = (if d < 10 then of_nat (48 + d) else of_nat (87 + d))"

definition uesc :: "jschar \<Rightarrow> jstring" where
  "uesc c = [0x5C, ch CHR ''u''] @
     [hex_char (unat c div 4096), hex_char (unat c div 256 mod 16),
      hex_char (unat c div 16 mod 16), hex_char (unat c mod 16)]"

text \<open>One code unit that is not part of a surrogate pair, as \<^verbatim>\<open>QuoteJSONString\<close> writes it.\<close>

definition esc1 :: "jschar \<Rightarrow> jstring" where
  "esc1 c =
     (if c = 0x08 then [0x5C, ch CHR ''b'']
      else if c = 0x09 then [0x5C, ch CHR ''t'']
      else if c = 0x0A then [0x5C, ch CHR ''n'']
      else if c = 0x0C then [0x5C, ch CHR ''f'']
      else if c = 0x0D then [0x5C, ch CHR ''r'']
      else if c = 0x22 then [0x5C, 0x22]
      else if c = 0x5C then [0x5C, 0x5C]
      else if c < 0x20 \<or> is_high c \<or> is_low c then uesc c
      else [c])"

fun quote_body :: "jstring \<Rightarrow> jstring" where
  "quote_body [] = []"
| "quote_body [c] = esc1 c"
| "quote_body (c # d # cs) =
     (if is_high c \<and> is_low d then c # d # quote_body cs
      else esc1 c @ quote_body (d # cs))"

definition quote :: "jstring \<Rightarrow> jstring" where
  "quote s = [0x22] @ quote_body s @ [0x22]"

subsection \<open>\<^verbatim>\<open>JSON.stringify\<close>\<close>

fun join :: "jstring \<Rightarrow> jstring list \<Rightarrow> jstring" where
  "join sep [] = []"
| "join sep [x] = x"
| "join sep (x # y # ys) = x @ sep @ join sep (y # ys)"

text \<open>
  \<^verbatim>\<open>SerializeJSONProperty\<close> with the gap \<open>gap\<close> (empty, or two spaces for
  \<^verbatim>\<open>JSON.stringify(v, null, 2)\<close>) at the indentation \<open>ind\<close>. The result \<open>None\<close> is
  \<^verbatim>\<open>undefined\<close>: such a property is left out of an object and written \<^verbatim>\<open>null\<close> in an
  array. A number that is not finite is written \<^verbatim>\<open>null\<close>.
\<close>

definition wrap :: "jschar \<Rightarrow> jschar \<Rightarrow> jstring \<Rightarrow> jstring \<Rightarrow> jstring list \<Rightarrow> jstring" where
  "wrap l r gap ind parts =
     (if parts = [] then [l, r]
      else if gap = [] then [l] @ join [ch CHR '',''] parts @ [r]
      else [l, 0x0A] @ (ind @ gap) @ join ([ch CHR '','', 0x0A] @ (ind @ gap)) parts
           @ [0x0A] @ ind @ [r])"

fun ser :: "jstring \<Rightarrow> jstring \<Rightarrow> jsval \<Rightarrow> jstring option"
  and ser_elems :: "jstring \<Rightarrow> jstring \<Rightarrow> jsval list \<Rightarrow> jstring list"
  and ser_members :: "jstring \<Rightarrow> jstring \<Rightarrow> props \<Rightarrow> jstring list"
where
  "ser gap ind JUndefined = None"
| "ser gap ind JNull = Some (js ''null'')"
| "ser gap ind (JBool b) = Some (if b then js ''true'' else js ''false'')"
| "ser gap ind (JNum x) = Some (if is_finite x then num_str x else js ''null'')"
| "ser gap ind (JStr s) = Some (quote s)"
| "ser gap ind (JArr xs) =
     Some (wrap (ch CHR ''['') (ch CHR '']'') gap ind (ser_elems gap (ind @ gap) xs))"
| "ser gap ind (JObj kvs) =
     Some (wrap (ch CHR ''{'') (ch CHR ''}'') gap ind (ser_members gap (ind @ gap) kvs))"
| "ser_elems gap ind [] = []"
| "ser_elems gap ind (x # xs) =
     (case ser gap ind x of None \<Rightarrow> js ''null'' | Some t \<Rightarrow> t) # ser_elems gap ind xs"
| "ser_members gap ind [] = []"
| "ser_members gap ind ((k, v) # kvs) =
     (case ser gap ind v of
        None \<Rightarrow> ser_members gap ind kvs
      | Some t \<Rightarrow>
          (quote k @ [ch CHR '':''] @ (if gap = [] then [] else [ch CHR '' '']) @ t)
          # ser_members gap ind kvs)"

definition JSON_stringify :: "jstring \<Rightarrow> jsval \<Rightarrow> jstring" where
  "JSON_stringify gap v = (case ser gap [] v of None \<Rightarrow> js ''undefined'' | Some t \<Rightarrow> t)"

subsection \<open>\<^verbatim>\<open>JSON.parse\<close>\<close>

text \<open>
  The text is cut into tokens, white space between them dropped, and the tokens are read
  by a machine with a stack of the arrays and objects under construction. A number token
  is the longest run of sign, digit, point and exponent characters; it has to follow the
  grammar \<^verbatim>\<open>-? (0 | [1-9][0-9]*) (. [0-9]+)? ([eE] [+-]? [0-9]+)?\<close> and is brought to the
  digits and exponent of \<open>Fin\<close>. In a string the escapes
  \<^verbatim>\<open>\" \\ \/ \b \f \n \r \t \uXXXX\<close> are read and a code unit below \<^verbatim>\<open>0x20\<close> is an error. A
  property that occurs twice in an object keeps its place and takes the later value.
\<close>

datatype token =
    TLBrace | TRBrace | TLBracket | TRBracket | TColon | TComma
  | TStr jstring | TNum jsnum | TTrue | TFalse | TNull

definition is_ws :: "jschar \<Rightarrow> bool" where
  "is_ws c = (c = 0x20 \<or> c = 0x09 \<or> c = 0x0A \<or> c = 0x0D)"

definition is_digit :: "jschar \<Rightarrow> bool" where
  "is_digit c = (0x30 \<le> c \<and> c \<le> 0x39)"

definition is_numchar :: "jschar \<Rightarrow> bool" where
  "is_numchar c =
     (is_digit c \<or> c = ch CHR ''-'' \<or> c = ch CHR ''+'' \<or> c = ch CHR ''.'' \<or>
      c = ch CHR ''e'' \<or> c = ch CHR ''E'')"

definition digit_val :: "jschar \<Rightarrow> nat" where
  "digit_val c = unat c - 48"

definition nat_of_digits :: "nat list \<Rightarrow> nat" where
  "nat_of_digits ds = foldl (\<lambda>a d. 10 * a + d) 0 ds"

definition normalise :: "bool \<Rightarrow> nat list \<Rightarrow> int \<Rightarrow> jsnum" where
  "normalise neg ds n0 =
     (let z = length (takeWhile (\<lambda>d. d = 0) ds);
          ds1 = dropWhile (\<lambda>d. d = 0) ds;
          ds2 = rev (dropWhile (\<lambda>d. d = 0) (rev ds1))
      in if ds2 = [] then Fin False [] 0 else Fin neg ds2 (n0 - int z))"

fun exponent :: "jstring \<Rightarrow> int option" where
  "exponent [] = Some 0"
| "exponent (c # r) =
     (if c = ch CHR ''e'' \<or> c = ch CHR ''E'' then
        (let neg = (r \<noteq> [] \<and> hd r = ch CHR ''-'');
             r' = (if r \<noteq> [] \<and> (hd r = ch CHR ''-'' \<or> hd r = ch CHR ''+'') then tl r else r)
         in if r' \<noteq> [] \<and> list_all is_digit r'
            then Some ((if neg then -1 else 1) * int (nat_of_digits (map digit_val r')))
            else None)
      else None)"

definition num_of_literal :: "jstring \<Rightarrow> jsnum option" where
  "num_of_literal t =
     (let neg = (t \<noteq> [] \<and> hd t = ch CHR ''-'');
          t1 = (if neg then tl t else t);
          ip = takeWhile is_digit t1;
          r1 = dropWhile is_digit t1;
          point = (r1 \<noteq> [] \<and> hd r1 = ch CHR ''.'');
          fp = (if point then takeWhile is_digit (tl r1) else []);
          r2 = (if point then dropWhile is_digit (tl r1) else r1)
      in if ip = [] \<or> (1 < length ip \<and> hd ip = ch CHR ''0'') \<or> (point \<and> fp = []) then None
         else (case exponent r2 of
                 None \<Rightarrow> None
               | Some ex \<Rightarrow>
                   Some (normalise neg (map digit_val (ip @ fp)) (int (length ip) + ex))))"

definition hex_val :: "jschar \<Rightarrow> nat option" where
  "hex_val c =
     (if 0x30 \<le> c \<and> c \<le> 0x39 then Some (unat c - 48)
      else if 0x61 \<le> c \<and> c \<le> 0x66 then Some (unat c - 87)
      else if 0x41 \<le> c \<and> c \<le> 0x46 then Some (unat c - 55)
      else None)"

definition hex4 :: "jschar \<Rightarrow> jschar \<Rightarrow> jschar \<Rightarrow> jschar \<Rightarrow> jschar option" where
  "hex4 a b c d =
     (case (hex_val a, hex_val b, hex_val c, hex_val d) of
        (Some x, Some y, Some z, Some w) \<Rightarrow> Some (of_nat (((x * 16 + y) * 16 + z) * 16 + w))
      | _ \<Rightarrow> None)"

definition unescape :: "jschar \<Rightarrow> jschar option" where
  "unescape e =
     (if e = 0x22 then Some 0x22
      else if e = 0x5C then Some 0x5C
      else if e = ch CHR ''/'' then Some (ch CHR ''/'')
      else if e = ch CHR ''b'' then Some 0x08
      else if e = ch CHR ''f'' then Some 0x0C
      else if e = ch CHR ''n'' then Some 0x0A
      else if e = ch CHR ''r'' then Some 0x0D
      else if e = ch CHR ''t'' then Some 0x09
      else None)"

definition ocons :: "'a \<Rightarrow> 'a list option \<Rightarrow> 'a list option" where
  "ocons x r = map_option ((#) x) r"

function lex :: "jstring \<Rightarrow> token list option"
  and lex_str :: "jstring \<Rightarrow> jstring \<Rightarrow> token list option"
where
  "lex [] = Some []"
| "lex (c # cs) =
     (if is_ws c then lex cs
      else if c = ch CHR ''{'' then ocons TLBrace (lex cs)
      else if c = ch CHR ''}'' then ocons TRBrace (lex cs)
      else if c = ch CHR ''['' then ocons TLBracket (lex cs)
      else if c = ch CHR '']'' then ocons TRBracket (lex cs)
      else if c = ch CHR '':'' then ocons TColon (lex cs)
      else if c = ch CHR '','' then ocons TComma (lex cs)
      else if c = 0x22 then lex_str [] cs
      else if c = ch CHR ''-'' \<or> is_digit c then
        (case num_of_literal (c # takeWhile is_numchar cs) of
           None \<Rightarrow> None
         | Some x \<Rightarrow> ocons (TNum x) (lex (dropWhile is_numchar cs)))
      else if take 4 (c # cs) = js ''true'' then ocons TTrue (lex (drop 3 cs))
      else if take 5 (c # cs) = js ''false'' then ocons TFalse (lex (drop 4 cs))
      else if take 4 (c # cs) = js ''null'' then ocons TNull (lex (drop 3 cs))
      else None)"
| "lex_str acc [] = None"
| "lex_str acc (c # cs) =
     (if c = 0x22 then ocons (TStr (rev acc)) (lex cs)
      else if c = 0x5C then
        (case cs of
           [] \<Rightarrow> None
         | e # r \<Rightarrow>
             if e = ch CHR ''u'' then
               (case hex4 (r ! 0) (r ! 1) (r ! 2) (r ! 3) of
                  None \<Rightarrow> None
                | Some w \<Rightarrow> if length r < 4 then None else lex_str (w # acc) (drop 4 r))
             else
               (case unescape e of
                  None \<Rightarrow> None
                | Some w \<Rightarrow> lex_str (w # acc) r))
      else if c < 0x20 then None
      else lex_str (c # acc) cs)"
  by pat_completeness auto

termination
  by (relation "measure (\<lambda>x. case x of Inl cs \<Rightarrow> length cs | Inr (acc, cs) \<Rightarrow> length cs)")
     (auto simp: length_dropWhile_le le_imp_less_Suc)

datatype frame = FArr "jsval list" | FObj props jstring

fun parse_value :: "frame list \<Rightarrow> token list \<Rightarrow> jsval option"
  and reduce :: "frame list \<Rightarrow> jsval \<Rightarrow> token list \<Rightarrow> jsval option"
where
  "parse_value stk [] = None"
| "parse_value stk (t # ts) =
     (case t of
        TStr x \<Rightarrow> reduce stk (JStr x) ts
      | TNum x \<Rightarrow> reduce stk (JNum x) ts
      | TTrue \<Rightarrow> reduce stk (JBool True) ts
      | TFalse \<Rightarrow> reduce stk (JBool False) ts
      | TNull \<Rightarrow> reduce stk JNull ts
      | TLBracket \<Rightarrow>
          (case ts of
             TRBracket # ts' \<Rightarrow> reduce stk (JArr []) ts'
           | _ \<Rightarrow> parse_value (FArr [] # stk) ts)
      | TLBrace \<Rightarrow>
          (case ts of
             TRBrace # ts' \<Rightarrow> reduce stk (JObj []) ts'
           | TStr k # TColon # ts' \<Rightarrow> parse_value (FObj [] k # stk) ts'
           | _ \<Rightarrow> None)
      | _ \<Rightarrow> None)"
| "reduce [] v ts = (if ts = [] then Some v else None)"
| "reduce (FArr acc # stk) v ts =
     (case ts of
        TComma # ts' \<Rightarrow> parse_value (FArr (v # acc) # stk) ts'
      | TRBracket # ts' \<Rightarrow> reduce stk (JArr (rev (v # acc))) ts'
      | _ \<Rightarrow> None)"
| "reduce (FObj acc k # stk) v ts =
     (case ts of
        TComma # TStr k' # TColon # ts' \<Rightarrow>
          parse_value (FObj (AList.update k v acc) k' # stk) ts'
      | TRBrace # ts' \<Rightarrow> reduce stk (JObj (AList.update k v acc)) ts'
      | _ \<Rightarrow> None)"

definition JSON_parse :: "jstring \<Rightarrow> error + jsval" where
  "JSON_parse t =
     (case lex t of
        None \<Rightarrow> Inl SyntaxError
      | Some ts \<Rightarrow> (case parse_value [] ts of None \<Rightarrow> Inl SyntaxError | Some v \<Rightarrow> Inr v))"

text \<open>
  What \<^verbatim>\<open>JSON.parse(JSON.stringify(v))\<close> is for a value \<open>v\<close> other than \<^verbatim>\<open>undefined\<close>: a
  number that is not finite and an \<^verbatim>\<open>undefined\<close> array element have become \<^verbatim>\<open>null\<close>, and a
  property whose value is \<^verbatim>\<open>undefined\<close> is gone.
\<close>

fun clean :: "jsval \<Rightarrow> jsval"
  and clean_elems :: "jsval list \<Rightarrow> jsval list"
  and clean_members :: "props \<Rightarrow> props"
where
  "clean (JNum x) = (if is_finite x then JNum x else JNull)"
| "clean (JArr xs) = JArr (clean_elems xs)"
| "clean (JObj kvs) = JObj (clean_members kvs)"
| "clean JUndefined = JUndefined"
| "clean JNull = JNull"
| "clean (JBool b) = JBool b"
| "clean (JStr t) = JStr t"
| "clean_elems [] = []"
| "clean_elems (x # xs) = (if x = JUndefined then JNull else clean x) # clean_elems xs"
| "clean_members [] = []"
| "clean_members ((k, v) # kvs) =
     (if v = JUndefined then clean_members kvs else (k, clean v) # clean_members kvs)"

text \<open>The tokens of the text of a value that has no \<^verbatim>\<open>undefined\<close> in it.\<close>

fun toks :: "jsval \<Rightarrow> token list"
  and toks_elems :: "jsval list \<Rightarrow> token list"
  and toks_more :: "props \<Rightarrow> token list"
where
  "toks JUndefined = []"
| "toks JNull = [TNull]"
| "toks (JBool b) = [if b then TTrue else TFalse]"
| "toks (JNum x) = [TNum x]"
| "toks (JStr t) = [TStr t]"
| "toks (JArr xs) = TLBracket # toks_elems xs @ [TRBracket]"
| "toks (JObj []) = [TLBrace, TRBrace]"
| "toks (JObj ((k, v) # kvs)) = TLBrace # TStr k # TColon # toks v @ toks_more kvs @ [TRBrace]"
| "toks_elems [] = []"
| "toks_elems [x] = toks x"
| "toks_elems (x # y # ys) = toks x @ TComma # toks_elems (y # ys)"
| "toks_more [] = []"
| "toks_more ((k, v) # kvs) = TComma # TStr k # TColon # toks v @ toks_more kvs"

text \<open>
  A value that JSON text can represent but for properties holding \<^verbatim>\<open>undefined\<close>: every
  number in it is finite and no array has an \<^verbatim>\<open>undefined\<close> element. \<open>without_undefined\<close>
  leaves those properties out.
\<close>

fun representable :: "jsval \<Rightarrow> bool"
  and representable_elems :: "jsval list \<Rightarrow> bool"
  and representable_members :: "props \<Rightarrow> bool"
where
  "representable (JNum x) = is_finite x"
| "representable (JArr xs) = representable_elems xs"
| "representable (JObj kvs) = representable_members kvs"
| "representable JUndefined = True"
| "representable JNull = True"
| "representable (JBool b) = True"
| "representable (JStr t) = True"
| "representable_elems [] = True"
| "representable_elems (x # xs) = (x \<noteq> JUndefined \<and> representable x \<and> representable_elems xs)"
| "representable_members [] = True"
| "representable_members ((k, v) # kvs) = (representable v \<and> representable_members kvs)"

fun without_undefined :: "jsval \<Rightarrow> jsval"
  and without_undefined_elems :: "jsval list \<Rightarrow> jsval list"
  and without_undefined_members :: "props \<Rightarrow> props"
where
  "without_undefined (JArr xs) = JArr (without_undefined_elems xs)"
| "without_undefined (JObj kvs) = JObj (without_undefined_members kvs)"
| "without_undefined JUndefined = JUndefined"
| "without_undefined JNull = JNull"
| "without_undefined (JBool b) = JBool b"
| "without_undefined (JNum x) = JNum x"
| "without_undefined (JStr t) = JStr t"
| "without_undefined_elems [] = []"
| "without_undefined_elems (x # xs) = without_undefined x # without_undefined_elems xs"
| "without_undefined_members [] = []"
| "without_undefined_members ((k, v) # kvs) =
     (if v = JUndefined then without_undefined_members kvs
      else (k, without_undefined v) # without_undefined_members kvs)"

section \<open>The language operations the store uses\<close>

text \<open>
  Reading the property \<open>k\<close> of a value, for the property names the program reads (none is
  an index, \<^verbatim>\<open>length\<close> or a name defined on a built-in prototype): a \<^verbatim>\<open>TypeError\<close> on
  \<^verbatim>\<open>undefined\<close> and \<^verbatim>\<open>null\<close>, the own property of an object, \<^verbatim>\<open>undefined\<close> otherwise.
\<close>

fun get_prop :: "jsval \<Rightarrow> jstring \<Rightarrow> error + jsval" where
  "get_prop JUndefined k = Inl TypeError"
| "get_prop JNull k = Inl TypeError"
| "get_prop (JObj kvs) k = Inr (case map_of kvs k of None \<Rightarrow> JUndefined | Some v \<Rightarrow> v)"
| "get_prop v k = Inr JUndefined"

fun is_nullish :: "jsval \<Rightarrow> bool" where
  "is_nullish JUndefined = True"
| "is_nullish JNull = True"
| "is_nullish v = False"

text \<open>\<^verbatim>\<open>v ?? d\<close> and \<^verbatim>\<open>v?.k\<close>.\<close>

definition coalesce :: "jsval \<Rightarrow> jsval \<Rightarrow> jsval" where
  "coalesce v d = (if is_nullish v then d else v)"

definition opt_prop :: "jsval \<Rightarrow> jstring \<Rightarrow> error + jsval" where
  "opt_prop v k = (if is_nullish v then Inr JUndefined else get_prop v k)"

text \<open>
  \<^verbatim>\<open>a === b\<close>. Arrays and objects are compared by reference, and two of them read from
  different places of the store are different references.
\<close>

fun strict_eq :: "jsval \<Rightarrow> jsval \<Rightarrow> bool" where
  "strict_eq JUndefined JUndefined = True"
| "strict_eq JNull JNull = True"
| "strict_eq (JBool a) (JBool b) = (a = b)"
| "strict_eq (JNum a) (JNum b) = (a \<noteq> NaN \<and> a = b)"
| "strict_eq (JStr a) (JStr b) = (a = b)"
| "strict_eq a b = False"

text \<open>
  The own enumerable properties that \<^verbatim>\<open>{...v}\<close> copies, and \<^verbatim>\<open>{...base, ...src}\<close>: a
  property of \<open>src\<close> replaces the value of a property already there, in its place, and is
  appended otherwise.
\<close>

fun own_props :: "jsval \<Rightarrow> props" where
  "own_props (JObj kvs) = kvs"
| "own_props (JArr xs) = zip (map nat_str [0..<length xs]) xs"
| "own_props (JStr s) = zip (map nat_str [0..<length s]) (map (\<lambda>c. JStr [c]) s)"
| "own_props v = []"

definition assign :: "props \<Rightarrow> props \<Rightarrow> props" where
  "assign base src = fold (\<lambda>(k, v). AList.update k v) src base"

text \<open>
  The elements that \<^verbatim>\<open>[...v]\<close> iterates over: those of an array, the code points of a
  string; any other value the store can hold is not iterable.
\<close>

fun code_points :: "jstring \<Rightarrow> jstring list" where
  "code_points [] = []"
| "code_points [c] = [[c]]"
| "code_points (c # d # cs) =
     (if is_high c \<and> is_low d then [c, d] # code_points cs
      else [c] # code_points (d # cs))"

fun iterate :: "jsval \<Rightarrow> error + jsval list" where
  "iterate (JArr xs) = Inr xs"
| "iterate (JStr s) = Inr (map JStr (code_points s))"
| "iterate v = Inl TypeError"

text \<open>
  The receiver of \<^verbatim>\<open>.map\<close>, \<^verbatim>\<open>.filter\<close> and \<^verbatim>\<open>.find\<close> has to be an array; on any other
  value the call is a \<^verbatim>\<open>TypeError\<close>. A callback that throws ends the traversal.
\<close>

fun as_array :: "jsval \<Rightarrow> error + jsval list" where
  "as_array (JArr xs) = Inr xs"
| "as_array v = Inl TypeError"

fun filterE :: "('a \<Rightarrow> error + bool) \<Rightarrow> 'a list \<Rightarrow> error + 'a list" where
  "filterE p [] = Inr []"
| "filterE p (x # xs) =
     bindE (p x) (\<lambda>b. bindE (filterE p xs) (\<lambda>ys. Inr (if b then x # ys else ys)))"

fun findE :: "(jsval \<Rightarrow> error + bool) \<Rightarrow> jsval list \<Rightarrow> error + jsval" where
  "findE p [] = Inr JUndefined"
| "findE p (x # xs) = bindE (p x) (\<lambda>b. if b then Inr x else findE p xs)"

section \<open>The store\<close>

text \<open>
  The four collections of \<^verbatim>\<open>DataState\<close> and the text kept under \<^verbatim>\<open>STORAGE_KEY\<close> in
  local storage (\<open>None\<close> while nothing has been written). Writing to local storage is taken
  to succeed. An operation returns the new store, or the exception it throws; a throwing
  operation leaves the store as it was.
\<close>

record store =
  customers :: jsval
  technicians :: jsval
  devices :: jsval
  tickets :: jsval
  storage :: "jstring option"

definition initial :: store where
  "initial = \<lparr>customers = JArr [], technicians = JArr [], devices = JArr [],
              tickets = JArr [], storage = None\<rparr>"

definition snapshot :: "jsval \<Rightarrow> jsval \<Rightarrow> jsval \<Rightarrow> jsval \<Rightarrow> jsval" where
  "snapshot cs ts ds ks =
     JObj [(js ''customers'', cs), (js ''technicians'', ts), (js ''devices'', ds),
           (js ''tickets'', ks)]"

definition after :: "(store \<Rightarrow> error + store) \<Rightarrow> store \<Rightarrow> store" where
  "after op s = (case op s of Inl e \<Rightarrow> s | Inr s' \<Rightarrow> s')"

text \<open>
  Every mutation ends with
  \<^verbatim>\<open>localStorage.setItem(STORAGE_KEY, JSON.stringify({customers, technicians, devices, tickets}))\<close>
  on the collections of the next state.
\<close>

definition persist :: "store \<Rightarrow> store" where
  "persist s =
     s\<lparr>storage := Some (JSON_stringify []
          (snapshot (customers s) (technicians s) (devices s) (tickets s)))\<rparr>"

text \<open>
  \<^verbatim>\<open>addCustomer\<close>, \<^verbatim>\<open>addTechnician\<close>, \<^verbatim>\<open>addDevice\<close>: \<open>uuid\<close> is the value of
  \<^verbatim>\<open>crypto.randomUUID()\<close> and \<open>c\<close> the properties of the argument.
\<close>

definition addCustomer :: "jstring \<Rightarrow> props \<Rightarrow> store \<Rightarrow> error + store" where
  "addCustomer uuid c s =
     (let item = JObj (assign [(js ''id'', JStr uuid)] c) in
      bindE (iterate (customers s)) (\<lambda>old.
        Inr (persist (s\<lparr>customers := JArr (item # old)\<rparr>))))"

definition addTechnician :: "jstring \<Rightarrow> props \<Rightarrow> store \<Rightarrow> error + store" where
  "addTechnician uuid t s =
     (let item = JObj (assign [(js ''id'', JStr uuid)] t) in
      bindE (iterate (technicians s)) (\<lambda>old.
        Inr (persist (s\<lparr>technicians := JArr (item # old)\<rparr>))))"

definition addDevice :: "jstring \<Rightarrow> props \<Rightarrow> store \<Rightarrow> error + store" where
  "addDevice uuid d s =
     (let item = JObj (assign [(js ''id'', JStr uuid)] d) in
      bindE (iterate (devices s)) (\<lambda>old.
        Inr (persist (s\<lparr>devices := JArr (item # old)\<rparr>))))"

text \<open>\<^verbatim>\<open>addTicket\<close>: \<open>now\<close> is the value of \<^verbatim>\<open>new Date().toISOString()\<close>.\<close>

definition addTicket :: "jstring \<Rightarrow> jstring \<Rightarrow> props \<Rightarrow> store \<Rightarrow> error + store" where
  "addTicket uuid now t s =
     (let item = JObj (assign [(js ''id'', JStr uuid), (js ''createdAt'', JStr now),
                               (js ''updatedAt'', JStr now)] t) in
      bindE (iterate (tickets s)) (\<lambda>old.
        Inr (persist (s\<lparr>tickets := JArr (item # old)\<rparr>))))"

text \<open>
  \<^verbatim>\<open>updateTicket\<close>: the callback of \<^verbatim>\<open>map\<close> reads the clock for every ticket whose id
  matches; \<open>clock i\<close> is the reading taken for the ticket at index \<open>i\<close>.
\<close>

definition merged :: "jsval \<Rightarrow> props \<Rightarrow> jstring \<Rightarrow> jsval" where
  "merged tk updates now =
     JObj (assign (assign (assign [] (own_props tk)) updates) [(js ''updatedAt'', JStr now)])"

fun update_each :: "(nat \<Rightarrow> jstring) \<Rightarrow> jstring \<Rightarrow> props \<Rightarrow> nat \<Rightarrow> jsval list
    \<Rightarrow> error + jsval list" where
  "update_each clock ident updates i [] = Inr []"
| "update_each clock ident updates i (tk # tks) =
     bindE (get_prop tk (js ''id'')) (\<lambda>v.
       bindE (update_each clock ident updates (Suc i) tks) (\<lambda>rest.
         Inr ((if strict_eq v (JStr ident) then merged tk updates (clock i) else tk) # rest)))"

definition updateTicket :: "(nat \<Rightarrow> jstring) \<Rightarrow> jstring \<Rightarrow> props \<Rightarrow> store \<Rightarrow> error + store" where
  "updateTicket clock ident updates s =
     bindE (as_array (tickets s)) (\<lambda>old.
       bindE (update_each clock ident updates 0 old) (\<lambda>new.
         Inr (persist (s\<lparr>tickets := JArr new\<rparr>))))"

definition removeTicket :: "jstring \<Rightarrow> store \<Rightarrow> error + store" where
  "removeTicket ident s =
     bindE (as_array (tickets s)) (\<lambda>old.
       bindE (filterE (\<lambda>tk. bindE (get_prop tk (js ''id''))
                              (\<lambda>v. Inr (\<not> strict_eq v (JStr ident)))) old) (\<lambda>new.
         Inr (persist (s\<lparr>tickets := JArr new\<rparr>))))"

text \<open>\<^verbatim>\<open>save\<close> and \<^verbatim>\<open>exportAll\<close> write the four collections with an indentation of two spaces.\<close>

definition exportAll :: "store \<Rightarrow> jstring" where
  "exportAll s =
     JSON_stringify (js ''  '') (snapshot (customers s) (technicians s) (devices s) (tickets s))"

definition save :: "store \<Rightarrow> store" where
  "save s = s\<lparr>storage := Some (exportAll s)\<rparr>"

text \<open>
  \<^verbatim>\<open>importAll\<close>: \<open>adopted parsed k\<close> is \<^verbatim>\<open>parsed[k] ?? []\<close>. The result is the returned
  value, \<open>None\<close> for \<^verbatim>\<open>null\<close> and otherwise the exception whose message is returned, and the
  store after the call. \<^verbatim>\<open>hydrate\<close> reads local storage the same way and only logs an
  exception.
\<close>

definition adopted :: "jsval \<Rightarrow> jstring \<Rightarrow> error + jsval" where
  "adopted parsed k = bindE (get_prop parsed k) (\<lambda>v. Inr (coalesce v (JArr [])))"

definition importAll :: "jstring \<Rightarrow> store \<Rightarrow> error option \<times> store" where
  "importAll json s =
     (case bindE (JSON_parse json) (\<lambda>parsed.
             bindE (adopted parsed (js ''customers'')) (\<lambda>cs.
             bindE (adopted parsed (js ''technicians'')) (\<lambda>ts.
             bindE (adopted parsed (js ''devices'')) (\<lambda>ds.
             bindE (adopted parsed (js ''tickets'')) (\<lambda>ks.
               Inr (s\<lparr>customers := cs, technicians := ts, devices := ds, tickets := ks,
                      storage := Some (JSON_stringify (js ''  '') (snapshot cs ts ds ks))\<rparr>))))))
      of Inl e \<Rightarrow> (Some e, s)
       | Inr s' \<Rightarrow> (None, s'))"

definition hydrate :: "store \<Rightarrow> store" where
  "hydrate s =
     (case storage s of
        None \<Rightarrow> s
      | Some raw \<Rightarrow>
          if raw = [] then s
          else
            (case bindE (JSON_parse raw) (\<lambda>parsed.
                    bindE (adopted parsed (js ''customers'')) (\<lambda>cs.
                    bindE (adopted parsed (js ''technicians'')) (\<lambda>ts.
                    bindE (adopted parsed (js ''devices'')) (\<lambda>ds.
                    bindE (adopted parsed (js ''tickets'')) (\<lambda>ks.
                      Inr (s\<lparr>customers := cs, technicians := ts, devices := ds,
                             tickets := ks\<rparr>))))))
             of Inl e \<Rightarrow> s
              | Inr s' \<Rightarrow> s'))"

section \<open>The filtered ticket list of the view\<close>

text \<open>
  \<^verbatim>\<open>Boolean(v)\<close>, \<^verbatim>\<open>String(v)\<close> and \<^verbatim>\<open>Array.prototype.join\<close>. An array is converted by
  joining its elements with commas, \<^verbatim>\<open>undefined\<close> and \<^verbatim>\<open>null\<close> elements giving the empty
  string. A plain object is \<^verbatim>\<open>[object Object]\<close>, unless it has an own \<^verbatim>\<open>toString\<close> property:
  that one is not a function, and the conversion throws.
\<close>

fun truthy :: "jsval \<Rightarrow> bool" where
  "truthy JUndefined = False"
| "truthy JNull = False"
| "truthy (JBool b) = b"
| "truthy (JNum NaN) = False"
| "truthy (JNum (Fin neg ds n)) = (ds \<noteq> [])"
| "truthy (JNum x) = True"
| "truthy (JStr s) = (s \<noteq> [])"
| "truthy (JArr xs) = True"
| "truthy (JObj kvs) = True"

fun to_string :: "jsval \<Rightarrow> error + jstring"
  and join_elems :: "jsval list \<Rightarrow> error + jstring list"
where
  "to_string JUndefined = Inr (js ''undefined'')"
| "to_string JNull = Inr (js ''null'')"
| "to_string (JBool b) = Inr (if b then js ''true'' else js ''false'')"
| "to_string (JNum x) = Inr (num_str x)"
| "to_string (JStr s) = Inr s"
| "to_string (JArr xs) = bindE (join_elems xs) (\<lambda>parts. Inr (join [ch CHR '',''] parts))"
| "to_string (JObj kvs) =
     (if js ''toString'' \<in> set (map fst kvs) then Inl TypeError
      else Inr (js ''[object Object]''))"
| "join_elems [] = Inr []"
| "join_elems (x # xs) =
     bindE (if is_nullish x then Inr [] else to_string x) (\<lambda>t.
       bindE (join_elems xs) (\<lambda>ts. Inr (t # ts)))"

text \<open>\<^verbatim>\<open>hay.includes(needle)\<close>.\<close>

fun starts_with :: "jstring \<Rightarrow> jstring \<Rightarrow> bool" where
  "starts_with hs [] = True"
| "starts_with [] (n # ns) = False"
| "starts_with (h # hs) (n # ns) = (h = n \<and> starts_with hs ns)"

fun str_includes :: "jstring \<Rightarrow> jstring \<Rightarrow> bool" where
  "str_includes [] ns = (ns = [])"
| "str_includes (h # hs) ns = (starts_with (h # hs) ns \<or> str_includes hs ns)"

fun sequenceE :: "(error + 'a) list \<Rightarrow> error + 'a list" where
  "sequenceE [] = Inr []"
| "sequenceE (m # ms) = bindE m (\<lambda>x. bindE (sequenceE ms) (\<lambda>xs. Inr (x # xs)))"

text \<open>
  \<^verbatim>\<open>coll.find((c) => c.id === t[k])\<close>, and the ticket filter. The case mapping of
  \<^verbatim>\<open>toLowerCase\<close> follows the Unicode tables of the runtime and is the parameter \<open>lower\<close>;
  \<open>ascii_lower\<close> is that mapping on ASCII text.
\<close>

definition find_by :: "jsval \<Rightarrow> jsval \<Rightarrow> jstring \<Rightarrow> error + jsval" where
  "find_by coll t k =
     bindE (as_array coll)
       (findE (\<lambda>c. bindE (get_prop c (js ''id'')) (\<lambda>a.
                     bindE (get_prop t k) (\<lambda>b. Inr (strict_eq a b)))))"

definition haystack :: "(jstring \<Rightarrow> jstring) \<Rightarrow> jsval list \<Rightarrow> error + jstring" where
  "haystack lower parts =
     bindE (join_elems (filter truthy parts)) (\<lambda>ts. Inr (lower (join [ch CHR '' ''] ts)))"

definition passes :: "(jstring \<Rightarrow> jstring) \<Rightarrow> jstring \<Rightarrow> jstring \<Rightarrow> store \<Rightarrow> jsval
    \<Rightarrow> error + bool" where
  "passes lower filt search s t =
     bindE (if filt = js ''All'' then Inr True
            else bindE (get_prop t (js ''status'')) (\<lambda>v. Inr (strict_eq v (JStr filt))))
       (\<lambda>statusOk.
          if \<not> statusOk then Inr False
          else if search = [] then Inr True
          else
            bindE (find_by (customers s) t (js ''customerId'')) (\<lambda>cust.
            bindE (find_by (devices s) t (js ''deviceId'')) (\<lambda>dev.
            bindE (find_by (technicians s) t (js ''technicianId'')) (\<lambda>tech.
            bindE (sequenceE
                     [get_prop t (js ''problemDescription''),
                      opt_prop cust (js ''name''), opt_prop cust (js ''phone''),
                      opt_prop cust (js ''email''),
                      opt_prop dev (js ''brand''), opt_prop dev (js ''model''),
                      opt_prop dev (js ''serial''),
                      opt_prop tech (js ''name'')]) (\<lambda>parts.
            bindE (haystack lower parts) (\<lambda>hay.
              Inr (str_includes hay (lower search))))))))"

definition filteredTickets :: "(jstring \<Rightarrow> jstring) \<Rightarrow> jstring \<Rightarrow> jstring \<Rightarrow> store
    \<Rightarrow> error + jsval list" where
  "filteredTickets lower filt search s =
     bindE (as_array (tickets s)) (filterE (passes lower filt search s))"

definition ascii_lower :: "jstring \<Rightarrow> jstring" where
  "ascii_lower t = map (\<lambda>c. if 0x41 \<le> c \<and> c \<le> 0x5A then c + 0x20 else c) t"

section \<open>Notions used in the statements\<close>

text \<open>A ticket, or any other entity, carries the id \<open>ident\<close>.\<close>

definition has_id :: "jstring \<Rightarrow> jsval \<Rightarrow> bool" where
  "has_id ident v = (get_prop v (js ''id'') = Inr (JStr ident))"

definition collections :: "store \<Rightarrow> jsval \<times> jsval \<times> jsval \<times> jsval" where
  "collections s = (customers s, technicians s, devices s, tickets s)"

text \<open>The value read from a property, \<^verbatim>\<open>undefined\<close> when reading throws.\<close>

definition field :: "jsval \<Rightarrow> jstring \<Rightarrow> jsval" where
  "field v k = (case get_prop v k of Inl e \<Rightarrow> JUndefined | Inr w \<Rightarrow> w)"

text \<open>
  A value as the program builds and reads it: no object has a property twice, and a finite
  number has the digits of its shortest decimal form.
\<close>

fun proper_num :: "jsnum \<Rightarrow> bool" where
  "proper_num (Fin neg ds n) =
     (if ds = [] then \<not> neg \<and> n = 0
      else hd ds \<noteq> 0 \<and> last ds \<noteq> 0 \<and> list_all (\<lambda>d. d < 10) ds)"
| "proper_num x = True"

fun proper :: "jsval \<Rightarrow> bool"
  and proper_elems :: "jsval list \<Rightarrow> bool"
  and proper_members :: "props \<Rightarrow> bool"
where
  "proper (JNum x) = proper_num x"
| "proper (JArr xs) = proper_elems xs"
| "proper (JObj kvs) = (distinct (map fst kvs) \<and> proper_members kvs)"
| "proper JUndefined = True"
| "proper JNull = True"
| "proper (JBool b) = True"
| "proper (JStr s) = True"
| "proper_elems [] = True"
| "proper_elems (x # xs) = (proper x \<and> proper_elems xs)"
| "proper_members [] = True"
| "proper_members ((k, v) # kvs) = (proper v \<and> proper_members kvs)"

fun elems :: "jsval \<Rightarrow> jsval list" where
  "elems (JArr xs) = xs"
| "elems v = []"

subsection \<open>The TypeScript interfaces\<close>

fun is_string :: "jsval \<Rightarrow> bool" where
  "is_string (JStr s) = True"
| "is_string v = False"

fun is_number :: "jsval \<Rightarrow> bool" where
  "is_number (JNum x) = True"
| "is_number v = False"

fun is_object :: "jsval \<Rightarrow> bool" where
  "is_object (JObj kvs) = True"
| "is_object v = False"

definition opt :: "(jsval \<Rightarrow> bool) \<Rightarrow> jsval \<Rightarrow> bool" where
  "opt p v = (v = JUndefined \<or> p v)"

definition statuses :: "jstring list" where
  "statuses = [js ''New'', js ''Diagnosing'', js ''Awaiting Parts'', js ''In Progress'',
               js ''Ready'', js ''Picked Up'', js ''Cancelled'']"

fun is_status :: "jsval \<Rightarrow> bool" where
  "is_status (JStr s) = (s \<in> set statuses)"
| "is_status v = False"

text \<open>
  The argument of \<^verbatim>\<open>addCustomer\<close> has the type \<^verbatim>\<open>Omit<Customer, 'id'>\<close>, and likewise
  for the other three: an object with the fields of the interface other than those the
  store assigns.
\<close>

definition field_set :: "jstring list \<Rightarrow> props \<Rightarrow> bool" where
  "field_set ks c = (distinct (map fst c) \<and> set (map fst c) \<subseteq> set ks)"

definition customer_fields :: "props \<Rightarrow> bool" where
  "customer_fields c =
     (field_set [js ''name'', js ''phone'', js ''email''] c \<and>
      is_string (field (JObj c) (js ''name'')) \<and>
      opt is_string (field (JObj c) (js ''phone'')) \<and>
      opt is_string (field (JObj c) (js ''email'')))"

definition technician_fields :: "props \<Rightarrow> bool" where
  "technician_fields t =
     (field_set [js ''name''] t \<and> is_string (field (JObj t) (js ''name'')))"

definition device_fields :: "props \<Rightarrow> bool" where
  "device_fields d =
     (field_set [js ''type'', js ''brand'', js ''model'', js ''serial''] d \<and>
      is_string (field (JObj d) (js ''type'')) \<and>
      opt is_string (field (JObj d) (js ''brand'')) \<and>
      opt is_string (field (JObj d) (js ''model'')) \<and>
      opt is_string (field (JObj d) (js ''serial'')))"

definition ticket_fields :: "props \<Rightarrow> bool" where
  "ticket_fields t =
     (field_set [js ''customerId'', js ''deviceId'', js ''problemDescription'', js ''status'',
                 js ''technicianId'', js ''estimatedCost'', js ''notes''] t \<and>
      is_string (field (JObj t) (js ''customerId'')) \<and>
      is_string (field (JObj t) (js ''deviceId'')) \<and>
      is_string (field (JObj t) (js ''problemDescription'')) \<and>
      is_status (field (JObj t) (js ''status'')) \<and>
      opt is_string (field (JObj t) (js ''technicianId'')) \<and>
      opt is_number (field (JObj t) (js ''estimatedCost'')) \<and>
      opt is_string (field (JObj t) (js ''notes'')))"

text \<open>The entities of the four interfaces, and a store whose collections hold them.\<close>

definition is_Customer :: "jsval \<Rightarrow> bool" where
  "is_Customer v =
     (is_object v \<and> is_string (field v (js ''id'')) \<and> is_string (field v (js ''name'')) \<and>
      opt is_string (field v (js ''phone'')) \<and> opt is_string (field v (js ''email'')))"

definition is_Technician :: "jsval \<Rightarrow> bool" where
  "is_Technician v =
     (is_object v \<and> is_string (field v (js ''id'')) \<and> is_string (field v (js ''name'')))"

definition is_Device :: "jsval \<Rightarrow> bool" where
  "is_Device v =
     (is_object v \<and> is_string (field v (js ''id'')) \<and> is_string (field v (js ''type'')) \<and>
      opt is_string (field v (js ''brand'')) \<and> opt is_string (field v (js ''model'')) \<and>
      opt is_string (field v (js ''serial'')))"

definition is_Ticket :: "jsval \<Rightarrow> bool" where
  "is_Ticket v =
     (is_object v \<and> is_string (field v (js ''id'')) \<and>
      is_string (field v (js ''createdAt'')) \<and> is_string (field v (js ''updatedAt'')) \<and>
      is_string (field v (js ''customerId'')) \<and> is_string (field v (js ''deviceId'')) \<and>
      is_string (field v (js ''problemDescription'')) \<and> is_status (field v (js ''status'')) \<and>
      opt is_string (field v (js ''technicianId'')) \<and>
      opt is_number (field v (js ''estimatedCost'')) \<and>
      opt is_string (field v (js ''notes'')))"

fun array_of :: "(jsval \<Rightarrow> bool) \<Rightarrow> jsval \<Rightarrow> bool" where
  "array_of p (JArr xs) = list_all p xs"
| "array_of p v = False"

definition typed :: "store \<Rightarrow> bool" where
  "typed s =
     (array_of is_Customer (customers s) \<and> array_of is_Technician (technicians s) \<and>
      array_of is_Device (devices s) \<and> array_of is_Ticket (tickets s))"

subsection \<open>The filter as the specification words it\<close>

text \<open>
  The entity a ticket refers to is the first one of the collection with the id; a
  reference to no entity and a field that is absent contribute no text. The search text
  is made of the problem description, the customer's name, phone and email, the device's
  brand, model and serial, and the technician's name. \<open>claimed_text\<close> is their
  concatenation, as the specification says; \<open>search_text\<close> puts one space between those
  that are not empty, as \<^verbatim>\<open>filter(Boolean).join(' ')\<close> does.
\<close>

fun text_of :: "jsval \<Rightarrow> jstring" where
  "text_of (JStr t) = t"
| "text_of v = []"

definition joined :: "jsval \<Rightarrow> jsval \<Rightarrow> jsval option" where
  "joined coll ref = find (\<lambda>e. field e (js ''id'') = ref) (elems coll)"

fun texts_of :: "jsval option \<Rightarrow> jstring list \<Rightarrow> jstring list" where
  "texts_of None ks = []"
| "texts_of (Some e) ks = map (\<lambda>k. text_of (field e k)) ks"

definition search_parts :: "store \<Rightarrow> jsval \<Rightarrow> jstring list" where
  "search_parts s t =
     text_of (field t (js ''problemDescription''))
     # texts_of (joined (customers s) (field t (js ''customerId'')))
         [js ''name'', js ''phone'', js ''email'']
     @ texts_of (joined (devices s) (field t (js ''deviceId'')))
         [js ''brand'', js ''model'', js ''serial'']
     @ texts_of (joined (technicians s) (field t (js ''technicianId''))) [js ''name'']"

definition claimed_text :: "store \<Rightarrow> jsval \<Rightarrow> jstring" where
  "claimed_text s t = concat (search_parts s t)"

definition search_text :: "store \<Rightarrow> jsval \<Rightarrow> jstring" where
  "search_text s t = join [ch CHR '' ''] (filter (\<lambda>p. p \<noteq> []) (search_parts s t))"

definition status_passes :: "jstring \<Rightarrow> jsval \<Rightarrow> bool" where
  "status_passes filt t = (filt = js ''All'' \<or> field t (js ''status'') = JStr filt)"

definition claimed_match :: "(jstring \<Rightarrow> jstring) \<Rightarrow> jstring \<Rightarrow> jstring \<Rightarrow> store \<Rightarrow> jsval \<Rightarrow> bool" where
  "claimed_match lower filt search s t =
     (status_passes filt t \<and>
      (search = [] \<or> str_includes (lower (claimed_text s t)) (lower search)))"

definition matches :: "(jstring \<Rightarrow> jstring) \<Rightarrow> jstring \<Rightarrow> jstring \<Rightarrow> store \<Rightarrow> jsval \<Rightarrow> bool" where
  "matches lower filt search s t =
     (status_passes filt t \<and>
      (search = [] \<or> str_includes (lower (search_text s t)) (lower search)))"

text \<open>\<^verbatim>\<open>a < b\<close> on strings: the order of the code units, the order of ISO timestamps.\<close>

fun str_less :: "jstring \<Rightarrow> jstring \<Rightarrow> bool" where
  "str_less [] [] = False"
| "str_less [] (y # ys) = True"
| "str_less (x # xs) [] = False"
| "str_less (x # xs) (y # ys) = (x < y \<or> (x = y \<and> str_less xs ys))"

subsection \<open>Sequences of operations\<close>

datatype op =
    AddCustomer jstring props
  | AddTechnician jstring props
  | AddDevice jstring props
  | AddTicket jstring jstring props
  | UpdateTicket "nat \<Rightarrow> jstring" jstring props
  | RemoveTicket jstring
  | ImportAll jstring

fun step :: "op \<Rightarrow> store \<Rightarrow> store" where
  "step (AddCustomer uuid c) s = after (addCustomer uuid c) s"
| "step (AddTechnician uuid t) s = after (addTechnician uuid t) s"
| "step (AddDevice uuid d) s = after (addDevice uuid d) s"
| "step (AddTicket uuid now t) s = after (addTicket uuid now t) s"
| "step (UpdateTicket clock ident updates) s = after (updateTicket clock ident updates) s"
| "step (RemoveTicket ident) s = after (removeTicket ident) s"
| "step (ImportAll json) s = snd (importAll json s)"

definition run :: "op list \<Rightarrow> store \<Rightarrow> store" where
  "run ops s = fold step ops s"

text \<open>
  A ticket is followed through the operations by its index in the collection.
  \<^verbatim>\<open>addTicket\<close> puts the new ticket in front of it, \<^verbatim>\<open>updateTicket\<close> leaves it in place,
  \<^verbatim>\<open>removeTicket\<close> removes it when it carries the id and otherwise moves it up past the
  removed tickets before it, and an \<^verbatim>\<open>importAll\<close> that succeeds replaces the collection,
  so that the ticket is gone (\<open>None\<close>). A call that throws leaves everything in place:
  \<^verbatim>\<open>removeTicket\<close> when a ticket is \<^verbatim>\<open>undefined\<close> or \<^verbatim>\<open>null\<close>, \<^verbatim>\<open>importAll\<close> when the
  text is not JSON or is the JSON text of \<^verbatim>\<open>null\<close>.
  \<open>spares_created\<close> holds of every operation but an \<^verbatim>\<open>updateTicket\<close> whose argument has a
  \<^verbatim>\<open>createdAt\<close> property, and \<open>keys_distinct\<close> of every value but an object with a
  property twice.
\<close>

fun keys_distinct :: "jsval \<Rightarrow> bool" where
  "keys_distinct (JObj kvs) = distinct (map fst kvs)"
| "keys_distinct v = True"

fun moved :: "op \<Rightarrow> store \<Rightarrow> nat \<Rightarrow> nat option" where
  "moved (AddTicket uuid now t) s p = Some (Suc p)"
| "moved (RemoveTicket ident) s p =
     (let xs = elems (tickets s) in
      if list_ex is_nullish xs then Some p
      else if p < length xs \<and> \<not> has_id ident (xs ! p)
      then Some (length (filter (\<lambda>tk. \<not> has_id ident tk) (take p xs)))
      else None)"
| "moved (ImportAll json) s p =
     (case JSON_parse json of
        Inl e \<Rightarrow> Some p
      | Inr parsed \<Rightarrow> if is_nullish parsed then Some p else None)"
| "moved (AddCustomer uuid c) s p = Some p"
| "moved (AddTechnician uuid t) s p = Some p"
| "moved (AddDevice uuid d) s p = Some p"
| "moved (UpdateTicket clock ident updates) s p = Some p"

fun followed :: "op list \<Rightarrow> store \<Rightarrow> nat \<Rightarrow> nat option" where
  "followed [] s p = Some p"
| "followed (op # ops) s p =
     (case moved op s p of None \<Rightarrow> None | Some q \<Rightarrow> followed ops (step op s) q)"

fun spares_created :: "op \<Rightarrow> bool" where
  "spares_created (UpdateTicket clock ident updates) = (js ''createdAt'' \<notin> set (map fst updates))"
| "spares_created (AddTicket uuid now t) = True"
| "spares_created (AddCustomer uuid c) = True"
| "spares_created (AddTechnician uuid t) = True"
| "spares_created (AddDevice uuid d) = True"
| "spares_created (RemoveTicket ident) = True"
| "spares_created (ImportAll json) = True"

subsection \<open>The demo data\<close>

text \<open>
  The records that the view writes when all four collections are empty, with the ids and
  the timestamp it draws: customer John Doe, technician Alice, a Dell laptop and one
  ticket in status \<^verbatim>\<open>Diagnosing\<close> with an estimated cost of 150.
\<close>

definition demo_ticket :: "jstring \<Rightarrow> jstring \<Rightarrow> jstring \<Rightarrow> jstring \<Rightarrow> jstring \<Rightarrow> jsval" where
  "demo_ticket cid tid did kid now =
     JObj [(js ''id'', JStr kid), (js ''createdAt'', JStr now), (js ''updatedAt'', JStr now),
           (js ''customerId'', JStr cid), (js ''deviceId'', JStr did),
           (js ''problemDescription'',
              JStr (js ''Won'' @ [0x27] @ js ''t boot, possible SSD failure'')),
           (js ''status'', JStr (js ''Diagnosing'')), (js ''technicianId'', JStr tid),
           (js ''estimatedCost'', JNum (Fin False [1, 5] 3)),
           (js ''notes'', JStr (js ''Run diagnostics, check SSD health''))]"

definition demo :: "jstring \<Rightarrow> jstring \<Rightarrow> jstring \<Rightarrow> jstring \<Rightarrow> jstring \<Rightarrow> store" where
  "demo cid tid did kid now =
     \<lparr>customers = JArr [JObj [(js ''id'', JStr cid), (js ''name'', JStr (js ''John Doe'')),
                              (js ''phone'', JStr (js ''555-0100'')),
                              (js ''email'', JStr (js ''john@example.com''))]],
      technicians = JArr [JObj [(js ''id'', JStr tid), (js ''name'', JStr (js ''Alice''))]],
      devices = JArr [JObj [(js ''id'', JStr did), (js ''type'', JStr (js ''Laptop'')),
                            (js ''brand'', JStr (js ''Dell'')), (js ''model'', JStr (js ''XPS 13'')),
                            (js ''serial'', JStr (js ''ABC123''))]],
      tickets = JArr [demo_ticket cid tid did kid now],
      storage = None\<rparr>"

definition demo0 :: store where
  "demo0 = demo (js ''c-1'') (js ''u-1'') (js ''d-1'') (js ''k-1'') (js ''2024-05-01T10:00:00.000Z'')"

subsection \<open>Import and export\<close>

text \<open>
  The four keys of the exported object. An object has the four-collection shape when each
  of these keys is missing from it or holds an array; \<open>given kvs k\<close> is the array under the
  key \<open>k\<close>, empty when the key is missing.
\<close>

definition collection_keys :: "jstring list" where
  "collection_keys = [js ''customers'', js ''technicians'', js ''devices'', js ''tickets'']"

fun is_array :: "jsval \<Rightarrow> bool" where
  "is_array (JArr xs) = True"
| "is_array v = False"

definition collection_shape :: "props \<Rightarrow> bool" where
  "collection_shape kvs =
     list_all (\<lambda>k. case map_of kvs k of None \<Rightarrow> True | Some v \<Rightarrow> is_array v) collection_keys"

definition given :: "props \<Rightarrow> jstring \<Rightarrow> jsval" where
  "given kvs k = (case map_of kvs k of None \<Rightarrow> JArr [] | Some v \<Rightarrow> v)"

text \<open>
  A store whose collections JSON text can represent: each is a value other than
  \<^verbatim>\<open>undefined\<close> and \<^verbatim>\<open>null\<close> in which no object has a property twice, every number is
  finite and no array has an \<^verbatim>\<open>undefined\<close> element.
\<close>

definition exportable :: "store \<Rightarrow> bool" where
  "exportable s =
     list_all (\<lambda>c. proper c \<and> representable c \<and> \<not> is_nullish c)
       [customers s, technicians s, devices s, tickets s]"

text \<open>
  The demo data after \<^verbatim>\<open>updateTicket('k-1', {estimatedCost: Infinity})\<close>, called at
  \<^verbatim>\<open>2024-06-01T00:00:00.000Z\<close>.
\<close>

definition lossy :: store where
  "lossy = after (updateTicket (\<lambda>j. js ''2024-06-01T00:00:00.000Z'') (js ''k-1'')
                    [(js ''estimatedCost'', JNum PosInfinity)]) demo0"

text \<open>
  Three calls on the demo data: an \<^verbatim>\<open>updateTicket\<close> that gives the demo ticket another id,
  an \<^verbatim>\<open>addTicket\<close> whose new ticket gets the old id, and the \<^verbatim>\<open>removeTicket\<close> of that id.
\<close>

definition relabel :: "op list" where
  "relabel =
     [UpdateTicket (\<lambda>j. js ''2024-06-01T00:00:00.000Z'') (js ''k-1'')
        [(js ''status'', JStr (js ''Ready'')), (js ''id'', JStr (js ''k-7''))],
      AddTicket (js ''k-1'') (js ''2024-06-02T00:00:00.000Z'')
        [(js ''customerId'', JStr (js ''c-1'')), (js ''deviceId'', JStr (js ''d-1'')),
         (js ''problemDescription'', JStr (js ''No sound'')), (js ''status'', JStr (js ''New''))],
      RemoveTicket (js ''k-1'')]"

section \<open>Basic facts\<close>

lemma unat_ch: "unat (ch c) = of_char c"
proof -
  have "(of_char c :: nat) < 256" by simp
  then have "(of_char c :: nat) < 65536" by linarith
  then show ?thesis by (simp add: ch_def unat_of_nat take_bit_nat_eq_self)
qed

lemma ch_eq_iff [simp]: "ch c = ch d \<longleftrightarrow> c = d"
proof
  assume "ch c = ch d"
  then have "unat (ch c) = unat (ch d)" by simp
  then show "c = d" by (simp add: unat_ch)
qed simp

lemma js_eq_iff [simp]: "js a = js b \<longleftrightarrow> a = b"
  unfolding js_def by (rule inj_map_eq_map) (simp add: inj_on_def)

lemma bindE_Inl [simp]: "bindE (Inl e) f = Inl e"
  by (simp add: bindE_def)

lemma bindE_Inr [simp]: "bindE (Inr x) f = f x"
  by (simp add: bindE_def)

lemma bindE_eq_Inr: "bindE m f = Inr y \<longleftrightarrow> (\<exists>x. m = Inr x \<and> f x = Inr y)"
  by (cases m) auto

lemma strict_eq_JStr [simp]: "strict_eq v (JStr i) \<longleftrightarrow> v = JStr i"
  by (cases v) auto

lemma as_array_Inr: "as_array v = Inr xs \<longleftrightarrow> v = JArr xs"
  by (cases v) auto

lemma filterE_Inr:
  "filterE p xs = Inr ys \<Longrightarrow>
     (\<forall>x \<in> set xs. \<exists>b. p x = Inr b) \<and> ys = filter (\<lambda>x. p x = Inr True) xs"
proof (induction xs arbitrary: ys)
  case Nil
  then show ?case by simp
next
  case (Cons x xs)
  then show ?case by (auto simp: bindE_eq_Inr split: if_splits)
qed

lemma filterE_total:
  "\<forall>x \<in> set xs. \<exists>b. p x = Inr b \<Longrightarrow> filterE p xs = Inr (filter (\<lambda>x. p x = Inr True) xs)"
  by (induction xs) auto

section \<open>Removing a ticket\<close>

lemma keep_iff:
  "bindE (get_prop tk (js ''id'')) (\<lambda>v. Inr (v \<noteq> JStr i)) = Inr True
     \<longleftrightarrow> \<not> is_nullish tk \<and> \<not> has_id i tk"
  by (cases tk) (auto simp: has_id_def)

lemma keep_defined:
  "(\<exists>b. bindE (get_prop tk (js ''id'')) (\<lambda>v. Inr (v \<noteq> JStr i)) = Inr b)
     \<longleftrightarrow> \<not> is_nullish tk"
  by (cases tk) auto

lemma removeTicket_Inr:
  "removeTicket i s = Inr s' \<longleftrightarrow>
     (\<exists>xs. tickets s = JArr xs \<and> (\<forall>tk \<in> set xs. \<not> is_nullish tk) \<and>
        s' = persist (s\<lparr>tickets := JArr (filter (\<lambda>tk. \<not> has_id i tk) xs)\<rparr>))"
proof
  assume "removeTicket i s = Inr s'"
  then obtain xs ys where xs: "tickets s = JArr xs"
    and f: "filterE (\<lambda>tk. bindE (get_prop tk (js ''id''))
                              (\<lambda>v. Inr (\<not> strict_eq v (JStr i)))) xs = Inr ys"
    and s': "s' = persist (s\<lparr>tickets := JArr ys\<rparr>)"
    by (auto simp: removeTicket_def bindE_eq_Inr as_array_Inr)
  from filterE_Inr [OF f] have "\<forall>tk \<in> set xs. \<not> is_nullish tk"
    and "ys = filter (\<lambda>tk. \<not> has_id i tk) xs"
    by (auto simp: keep_defined keep_iff intro: filter_cong)
  with xs s' show "\<exists>xs. tickets s = JArr xs \<and> (\<forall>tk \<in> set xs. \<not> is_nullish tk) \<and>
        s' = persist (s\<lparr>tickets := JArr (filter (\<lambda>tk. \<not> has_id i tk) xs)\<rparr>)"
    by simp
next
  assume "\<exists>xs. tickets s = JArr xs \<and> (\<forall>tk \<in> set xs. \<not> is_nullish tk) \<and>
        s' = persist (s\<lparr>tickets := JArr (filter (\<lambda>tk. \<not> has_id i tk) xs)\<rparr>)"
  then obtain xs where xs: "tickets s = JArr xs" and nn: "\<forall>tk \<in> set xs. \<not> is_nullish tk"
    and s': "s' = persist (s\<lparr>tickets := JArr (filter (\<lambda>tk. \<not> has_id i tk) xs)\<rparr>)"
    by blast
  from nn have "filterE (\<lambda>tk. bindE (get_prop tk (js ''id''))
                              (\<lambda>v. Inr (\<not> strict_eq v (JStr i)))) xs
      = Inr (filter (\<lambda>tk. \<not> has_id i tk) xs)"
    by (subst filterE_total) (auto simp: keep_defined keep_iff intro: filter_cong)
  with xs s' show "removeTicket i s = Inr s'"
    by (simp add: removeTicket_def)
qed

lemma persist_persist:
  "persist (persist s\<lparr>tickets := tickets (persist s)\<rparr>) = persist s"
  by (simp add: persist_def)

text \<open>
  C7. \<^verbatim>\<open>removeTicket(id)\<close> on an array of tickets removes exactly the tickets whose id is
  \<open>id\<close> and keeps the others in their order; a second \<^verbatim>\<open>removeTicket(id)\<close> right after the
  first changes nothing, so that applying it twice gives the state that applying it once
  gives. A call that throws leaves the store as it was, so the equation holds for every
  store.
\<close>

theorem removeTicket_idempotent:
  "after (removeTicket i) (after (removeTicket i) s) = after (removeTicket i) s \<and>
   (tickets s = JArr xs \<and> (\<forall>tk \<in> set xs. \<not> is_nullish tk) \<longrightarrow>
      removeTicket i s = Inr (persist (s\<lparr>tickets := JArr (filter (\<lambda>tk. \<not> has_id i tk) xs)\<rparr>)))"
proof
  show "after (removeTicket i) (after (removeTicket i) s) = after (removeTicket i) s"
  proof (cases "removeTicket i s")
    case (Inl e)
    then show ?thesis by (simp add: after_def)
  next
    case (Inr s')
    then obtain ys where nn: "\<forall>tk \<in> set ys. \<not> is_nullish tk"
      and s': "s' = persist (s\<lparr>tickets := JArr (filter (\<lambda>tk. \<not> has_id i tk) ys)\<rparr>)"
      unfolding removeTicket_Inr by blast
    have "removeTicket i s' = Inr s'"
      unfolding removeTicket_Inr
      by (rule exI [of _ "filter (\<lambda>tk. \<not> has_id i tk) ys"])
         (use nn s' in \<open>simp add: persist_def\<close>)
    with Inr show ?thesis by (simp add: after_def)
  qed
  show "tickets s = JArr xs \<and> (\<forall>tk \<in> set xs. \<not> is_nullish tk) \<longrightarrow>
      removeTicket i s = Inr (persist (s\<lparr>tickets := JArr (filter (\<lambda>tk. \<not> has_id i tk) xs)\<rparr>))"
    unfolding removeTicket_Inr by blast
qed

theorem removeTicket_idempotent_witness:
  "removeTicket (js ''t1'')
     (initial\<lparr>tickets := JArr [JObj [(js ''id'', JStr (js ''t1'')), (js ''status'', JStr (js ''New''))],
                               JObj [(js ''id'', JStr (js ''t2''))]]\<rparr>)
   = Inr (persist (initial\<lparr>tickets := JArr [JObj [(js ''id'', JStr (js ''t2''))]]\<rparr>))"
  using removeTicket_idempotent [of "js ''t1''"
     "initial\<lparr>tickets := JArr [JObj [(js ''id'', JStr (js ''t1'')), (js ''status'', JStr (js ''New''))],
                               JObj [(js ''id'', JStr (js ''t2''))]]\<rparr>"
     "[JObj [(js ''id'', JStr (js ''t1'')), (js ''status'', JStr (js ''New''))],
       JObj [(js ''id'', JStr (js ''t2''))]]"]
  by (simp add: has_id_def)

lemma map_of_assign: "map_of (assign base src) = map_of base ++ map_of (rev src)"
proof (induction src arbitrary: base)
  case Nil
  then show ?case by (simp add: assign_def)
next
  case (Cons kv src)
  obtain k v where kv: "kv = (k, v)" by (cases kv)
  have "assign base (kv # src) = assign (AList.update k v base) src"
    by (simp add: assign_def kv)
  then show ?case
    using Cons.IH [of "AList.update k v base"]
    by (simp add: kv update_conv' map_add_upd_left fun_eq_iff map_add_def split: option.splits)
qed

lemma distinct_assign: "distinct (map fst base) \<Longrightarrow> distinct (map fst (assign base src))"
  by (induction src arbitrary: base) (auto simp: assign_def distinct_update)

lemma update_fresh: "k \<notin> fst ` set al \<Longrightarrow> AList.update k v al = al @ [(k, v)]"
  by (induction al) auto

lemma assign_append_distinct:
  "distinct (map fst kvs) \<Longrightarrow> fst ` set base \<inter> fst ` set kvs = {} \<Longrightarrow> assign base kvs = base @ kvs"
proof (induction kvs arbitrary: base)
  case Nil
  then show ?case by (simp add: assign_def)
next
  case (Cons kv kvs)
  obtain k v where kv: "kv = (k, v)" by (cases kv)
  have "assign base (kv # kvs) = assign (AList.update k v base) kvs"
    by (simp add: assign_def kv)
  also have "AList.update k v base = base @ [(k, v)]"
    using Cons.prems by (intro update_fresh) (auto simp: kv)
  also have "assign (base @ [(k, v)]) kvs = (base @ [(k, v)]) @ kvs"
    using Cons.prems by (intro Cons.IH) (auto simp: kv)
  finally show ?case by (simp add: kv)
qed

lemma assign_Nil_distinct: "distinct (map fst kvs) \<Longrightarrow> assign [] kvs = kvs"
  using assign_append_distinct [of kvs "[]"] by simp


section \<open>Properties and merged objects\<close>

lemma field_JObj: "field (JObj kvs) k = (case map_of kvs k of None \<Rightarrow> JUndefined | Some v \<Rightarrow> v)"
  by (simp add: field_def)

lemma has_id_object: "has_id i tk \<Longrightarrow> \<exists>kvs. tk = JObj kvs \<and> map_of kvs (js ''id'') = Some (JStr i)"
  by (cases tk) (auto simp: has_id_def split: option.splits)

lemma has_id_field: "has_id i tk \<longleftrightarrow> field tk (js ''id'') = JStr i"
  by (cases tk) (auto simp: has_id_def field_def)

lemma update_each_ok:
  assumes "\<forall>tk \<in> set xs. \<not> is_nullish tk"
  shows "\<exists>ys. update_each clock i u n xs = Inr ys \<and> length ys = length xs \<and>
           (\<forall>j < length xs. ys ! j =
              (if has_id i (xs ! j) then merged (xs ! j) u (clock (n + j)) else xs ! j))"
  using assms
proof (induction xs arbitrary: n)
  case Nil
  then show ?case by simp
next
  case (Cons tk tks)
  from Cons.prems have "\<forall>tk \<in> set tks. \<not> is_nullish tk" by simp
  from Cons.IH [OF this, of "Suc n"] obtain ys where ys: "update_each clock i u (Suc n) tks = Inr ys"
    "length ys = length tks"
    "\<forall>j < length tks. ys ! j =
        (if has_id i (tks ! j) then merged (tks ! j) u (clock (Suc n + j)) else tks ! j)"
    by blast
  from Cons.prems obtain v where v: "get_prop tk (js ''id'') = Inr v"
    by (cases tk) auto
  have "update_each clock i u n (tk # tks)
      = Inr ((if has_id i tk then merged tk u (clock n) else tk) # ys)"
    using v ys(1) by (simp add: has_id_def)
  moreover have "\<forall>j < length (tk # tks).
      ((if has_id i tk then merged tk u (clock n) else tk) # ys) ! j =
        (if has_id i ((tk # tks) ! j) then merged ((tk # tks) ! j) u (clock (n + j))
         else (tk # tks) ! j)"
    using ys(3) by (auto simp: nth_Cons split: nat.splits)
  ultimately show ?case using ys(2) by auto
qed

lemma update_each_no_match:
  "\<forall>tk \<in> set xs. \<not> has_id i tk \<Longrightarrow> update_each clock i u n xs = Inr ys \<Longrightarrow> ys = xs"
proof (induction xs arbitrary: n ys)
  case Nil
  then show ?case by simp
next
  case (Cons tk tks)
  then show ?case by (auto simp: bindE_eq_Inr has_id_def)
qed

text \<open>
  C6. When no ticket of the collection carries the id, \<^verbatim>\<open>updateTicket(id, partialFields)\<close>
  changes none of the four collections, whatever \<open>partialFields\<close> is: the tickets keep
  their number and their contents. On tickets that can all be read the call returns, and
  the store it returns is the old one written to local storage again.
\<close>

theorem updateTicket_unknown_id:
  assumes "tickets s = JArr xs" and "\<forall>tk \<in> set xs. \<not> has_id i tk"
  shows "collections (after (updateTicket clock i u) s) = collections s \<and>
         ((\<forall>tk \<in> set xs. \<not> is_nullish tk) \<longrightarrow> updateTicket clock i u s = Inr (persist s))"
proof
  show "collections (after (updateTicket clock i u) s) = collections s"
  proof (cases "updateTicket clock i u s")
    case (Inl e)
    then show ?thesis by (simp add: after_def)
  next
    case (Inr s')
    then obtain ys where "update_each clock i u 0 xs = Inr ys"
      and s': "s' = persist (s\<lparr>tickets := JArr ys\<rparr>)"
      using assms(1) by (auto simp: updateTicket_def bindE_eq_Inr)
    with update_each_no_match [OF assms(2)] have "s' = persist s"
      using assms(1) by (metis store.surjective store.update_convs(4))
    with Inr show ?thesis by (simp add: after_def persist_def collections_def)
  qed
  show "(\<forall>tk \<in> set xs. \<not> is_nullish tk) \<longrightarrow> updateTicket clock i u s = Inr (persist s)"
  proof
    assume "\<forall>tk \<in> set xs. \<not> is_nullish tk"
    from update_each_ok [OF this, of clock i u 0] obtain ys
      where ys: "update_each clock i u 0 xs = Inr ys" by blast
    with update_each_no_match [OF assms(2)] have "ys = xs" by blast
    with ys assms(1) show "updateTicket clock i u s = Inr (persist s)"
      by (simp add: updateTicket_def) (metis store.surjective store.update_convs(4))
  qed
qed


theorem updateTicket_unknown_id_witness:
  "collections (after (updateTicket (\<lambda>j. js ''2024-06-01T00:00:00.000Z'') (js ''k-9'')
      [(js ''status'', JStr (js ''Ready''))]) demo0) = collections demo0 \<and>
   updateTicket (\<lambda>j. js ''2024-06-01T00:00:00.000Z'') (js ''k-9'')
      [(js ''status'', JStr (js ''Ready''))] demo0 = Inr (persist demo0)"
proof -
  have a: "tickets demo0 = JArr (elems (tickets demo0))"
    by (simp add: demo0_def demo_def)
  have b: "\<forall>tk \<in> set (elems (tickets demo0)). \<not> has_id (js ''k-9'') tk"
    by (simp add: demo0_def demo_def demo_ticket_def has_id_def)
  have c: "\<forall>tk \<in> set (elems (tickets demo0)). \<not> is_nullish tk"
    by (simp add: demo0_def demo_def demo_ticket_def)
  from updateTicket_unknown_id [OF a b] c show ?thesis by blast
qed

section \<open>Adding entities\<close>

lemma map_of_rev_distinct: "distinct (map fst xs) \<Longrightarrow> map_of (rev xs) = map_of xs"
  by (subst map_of_inject_set) (simp_all add: rev_map [symmetric])

lemma map_of_assign_notin:
  assumes "k \<notin> set (map fst src)"
  shows "map_of (assign base src) k = map_of base k"
proof -
  have "map_of (rev src) k = None"
    using assms by (simp add: map_of_eq_None_iff)
  then show ?thesis by (simp add: map_of_assign map_add_def)
qed

lemma map_of_assign_in:
  assumes "k \<in> set (map fst src)" and "distinct (map fst src)"
  shows "map_of (assign base src) k = map_of src k"
proof -
  from assms(1) have "map_of src k \<noteq> None"
    by (simp add: map_of_eq_None_iff)
  then obtain v where "map_of src k = Some v" by blast
  then show ?thesis
    using assms(2) by (simp add: map_of_assign map_add_def map_of_rev_distinct)
qed

lemma field_assign:
  "distinct (map fst src) \<Longrightarrow>
   field (JObj (assign base src)) k =
     (if k \<in> set (map fst src) then field (JObj src) k else field (JObj base) k)"
  by (simp add: field_JObj map_of_assign_in map_of_assign_notin del: set_map)

lemma field_assign_notin:
  "k \<notin> set (map fst src) \<Longrightarrow> field (JObj (assign base src)) k = field (JObj base) k"
  by (simp add: field_JObj map_of_assign_notin del: set_map)

lemma field_assign_single:
  "field (JObj (assign base [(k', v)])) k = (if k = k' then v else field (JObj base) k)"
  by (simp add: field_JObj assign_def update_conv')

lemma field_absent: "k \<notin> set (map fst kvs) \<Longrightarrow> field (JObj kvs) k = JUndefined"
  by (simp add: field_JObj map_of_eq_None_iff [THEN iffD2])

lemma field_Cons: "field (JObj ((k', v) # kvs)) k = (if k = k' then v else field (JObj kvs) k)"
  by (simp add: field_JObj)

lemma field_Nil: "field (JObj []) k = JUndefined"
  by (simp add: field_JObj)

text \<open>
  C8. On a collection that is an array, each of \<^verbatim>\<open>addCustomer\<close>, \<^verbatim>\<open>addTechnician\<close>,
  \<^verbatim>\<open>addDevice\<close> and \<^verbatim>\<open>addTicket\<close>, given a field set of its argument type, returns a
  store whose collection is the new item followed by the old elements (one element more,
  the new one first) and whose other three collections are the old ones. The item
  carries the id drawn for it and the given fields; a new ticket has \<^verbatim>\<open>createdAt\<close> and
  \<^verbatim>\<open>updatedAt\<close> equal to the clock reading of the call.
\<close>

theorem add_prepends:
  "(customer_fields c \<and> customers s = JArr cs \<longrightarrow>
      (\<exists>s' item. addCustomer uuid c s = Inr s' \<and> customers s' = JArr (item # cs) \<and>
         technicians s' = technicians s \<and> devices s' = devices s \<and> tickets s' = tickets s \<and>
         has_id uuid item \<and> (\<forall>k. k \<noteq> js ''id'' \<longrightarrow> field item k = field (JObj c) k))) \<and>
   (technician_fields t \<and> technicians s = JArr ts \<longrightarrow>
      (\<exists>s' item. addTechnician uuid t s = Inr s' \<and> technicians s' = JArr (item # ts) \<and>
         customers s' = customers s \<and> devices s' = devices s \<and> tickets s' = tickets s \<and>
         has_id uuid item \<and> (\<forall>k. k \<noteq> js ''id'' \<longrightarrow> field item k = field (JObj t) k))) \<and>
   (device_fields d \<and> devices s = JArr ds \<longrightarrow>
      (\<exists>s' item. addDevice uuid d s = Inr s' \<and> devices s' = JArr (item # ds) \<and>
         customers s' = customers s \<and> technicians s' = technicians s \<and> tickets s' = tickets s \<and>
         has_id uuid item \<and> (\<forall>k. k \<noteq> js ''id'' \<longrightarrow> field item k = field (JObj d) k))) \<and>
   (ticket_fields x \<and> tickets s = JArr xs \<longrightarrow>
      (\<exists>s' item. addTicket uuid now x s = Inr s' \<and> tickets s' = JArr (item # xs) \<and>
         customers s' = customers s \<and> technicians s' = technicians s \<and> devices s' = devices s \<and>
         has_id uuid item \<and> field item (js ''createdAt'') = field item (js ''updatedAt'') \<and>
         field item (js ''createdAt'') = JStr now \<and>
         (\<forall>k. k \<noteq> js ''id'' \<and> k \<noteq> js ''createdAt'' \<and> k \<noteq> js ''updatedAt'' \<longrightarrow>
              field item k = field (JObj x) k)))"
proof (intro conjI impI)
  assume a: "customer_fields c \<and> customers s = JArr cs"
  then have d: "distinct (map fst c)" and n: "js ''id'' \<notin> set (map fst c)"
    by (auto simp: customer_fields_def field_set_def)
  show "\<exists>s' item. addCustomer uuid c s = Inr s' \<and> customers s' = JArr (item # cs) \<and>
         technicians s' = technicians s \<and> devices s' = devices s \<and> tickets s' = tickets s \<and>
         has_id uuid item \<and> (\<forall>k. k \<noteq> js ''id'' \<longrightarrow> field item k = field (JObj c) k)"
    using a d n
    by (intro exI [of _ "persist (s\<lparr>customers := JArr (JObj (assign [(js ''id'', JStr uuid)] c) # cs)\<rparr>)"]
              exI [of _ "JObj (assign [(js ''id'', JStr uuid)] c)"])
       (simp add: addCustomer_def persist_def has_id_field field_assign field_absent field_Cons
                  field_Nil Let_def
             del: set_map)
next
  assume a: "technician_fields t \<and> technicians s = JArr ts"
  then have d: "distinct (map fst t)" and n: "js ''id'' \<notin> set (map fst t)"
    by (auto simp: technician_fields_def field_set_def)
  show "\<exists>s' item. addTechnician uuid t s = Inr s' \<and> technicians s' = JArr (item # ts) \<and>
         customers s' = customers s \<and> devices s' = devices s \<and> tickets s' = tickets s \<and>
         has_id uuid item \<and> (\<forall>k. k \<noteq> js ''id'' \<longrightarrow> field item k = field (JObj t) k)"
    using a d n
    by (intro exI [of _ "persist (s\<lparr>technicians := JArr (JObj (assign [(js ''id'', JStr uuid)] t) # ts)\<rparr>)"]
              exI [of _ "JObj (assign [(js ''id'', JStr uuid)] t)"])
       (simp add: addTechnician_def persist_def has_id_field field_assign field_absent field_Cons
                  field_Nil Let_def
             del: set_map)
next
  assume a: "device_fields d \<and> devices s = JArr ds"
  then have d: "distinct (map fst d)" and n: "js ''id'' \<notin> set (map fst d)"
    by (auto simp: device_fields_def field_set_def)
  show "\<exists>s' item. addDevice uuid d s = Inr s' \<and> devices s' = JArr (item # ds) \<and>
         customers s' = customers s \<and> technicians s' = technicians s \<and> tickets s' = tickets s \<and>
         has_id uuid item \<and> (\<forall>k. k \<noteq> js ''id'' \<longrightarrow> field item k = field (JObj d) k)"
    using a d n
    by (intro exI [of _ "persist (s\<lparr>devices := JArr (JObj (assign [(js ''id'', JStr uuid)] d) # ds)\<rparr>)"]
              exI [of _ "JObj (assign [(js ''id'', JStr uuid)] d)"])
       (simp add: addDevice_def persist_def has_id_field field_assign field_absent field_Cons
                  field_Nil Let_def
             del: set_map)
next
  assume a: "ticket_fields x \<and> tickets s = JArr xs"
  then have d: "distinct (map fst x)" and n: "js ''id'' \<notin> set (map fst x)"
    "js ''createdAt'' \<notin> set (map fst x)" "js ''updatedAt'' \<notin> set (map fst x)"
    by (auto simp: ticket_fields_def field_set_def)
  show "\<exists>s' item. addTicket uuid now x s = Inr s' \<and> tickets s' = JArr (item # xs) \<and>
         customers s' = customers s \<and> technicians s' = technicians s \<and> devices s' = devices s \<and>
         has_id uuid item \<and> field item (js ''createdAt'') = field item (js ''updatedAt'') \<and>
         field item (js ''createdAt'') = JStr now \<and>
         (\<forall>k. k \<noteq> js ''id'' \<and> k \<noteq> js ''createdAt'' \<and> k \<noteq> js ''updatedAt'' \<longrightarrow>
              field item k = field (JObj x) k)"
    using a d n
    by (intro exI [of _ "persist (s\<lparr>tickets := JArr (JObj (assign [(js ''id'', JStr uuid),
                 (js ''createdAt'', JStr now), (js ''updatedAt'', JStr now)] x) # xs)\<rparr>)"]
              exI [of _ "JObj (assign [(js ''id'', JStr uuid),
                 (js ''createdAt'', JStr now), (js ''updatedAt'', JStr now)] x)"])
       (simp add: addTicket_def persist_def has_id_field field_assign field_absent field_Cons
                  field_Nil Let_def
             del: set_map)
qed


theorem add_prepends_witness:
  "(\<exists>s' item. addCustomer (js ''c-2'')
        [(js ''name'', JStr (js ''Ann'')), (js ''phone'', JUndefined),
         (js ''email'', JStr (js ''ann@example.com''))] demo0 = Inr s' \<and>
      customers s' = JArr (item # elems (customers demo0)) \<and>
      technicians s' = technicians demo0 \<and> devices s' = devices demo0 \<and>
      tickets s' = tickets demo0 \<and> has_id (js ''c-2'') item \<and>
      (\<forall>k. k \<noteq> js ''id'' \<longrightarrow> field item k =
         field (JObj [(js ''name'', JStr (js ''Ann'')), (js ''phone'', JUndefined),
                      (js ''email'', JStr (js ''ann@example.com''))]) k)) \<and>
   (\<exists>s' item. addTicket (js ''c-2'') (js ''2024-06-01T00:00:00.000Z'')
        [(js ''customerId'', JStr (js ''c-1'')), (js ''deviceId'', JStr (js ''d-1'')),
         (js ''problemDescription'', JStr (js ''No sound'')), (js ''status'', JStr (js ''New'')),
         (js ''technicianId'', JUndefined), (js ''estimatedCost'', JUndefined),
         (js ''notes'', JUndefined)] demo0 = Inr s' \<and>
      tickets s' = JArr (item # elems (tickets demo0)) \<and>
      customers s' = customers demo0 \<and> technicians s' = technicians demo0 \<and>
      devices s' = devices demo0 \<and> has_id (js ''c-2'') item \<and>
      field item (js ''createdAt'') = field item (js ''updatedAt'') \<and>
      field item (js ''createdAt'') = JStr (js ''2024-06-01T00:00:00.000Z'') \<and>
      (\<forall>k. k \<noteq> js ''id'' \<and> k \<noteq> js ''createdAt'' \<and> k \<noteq> js ''updatedAt'' \<longrightarrow>
         field item k =
         field (JObj [(js ''customerId'', JStr (js ''c-1'')), (js ''deviceId'', JStr (js ''d-1'')),
           (js ''problemDescription'', JStr (js ''No sound'')), (js ''status'', JStr (js ''New'')),
           (js ''technicianId'', JUndefined), (js ''estimatedCost'', JUndefined),
           (js ''notes'', JUndefined)]) k)) \<and>
   (\<exists>s' item. addTechnician (js ''c-2'') [(js ''name'', JStr (js ''Bob''))] demo0 = Inr s' \<and>
      technicians s' = JArr (item # elems (technicians demo0)) \<and>
      customers s' = customers demo0 \<and> devices s' = devices demo0 \<and>
      tickets s' = tickets demo0 \<and> has_id (js ''c-2'') item \<and>
      (\<forall>k. k \<noteq> js ''id'' \<longrightarrow> field item k = field (JObj [(js ''name'', JStr (js ''Bob''))]) k)) \<and>
   (\<exists>s' item. addDevice (js ''c-2'')
        [(js ''type'', JStr (js ''Phone'')), (js ''brand'', JUndefined),
         (js ''model'', JUndefined), (js ''serial'', JUndefined)] demo0 = Inr s' \<and>
      devices s' = JArr (item # elems (devices demo0)) \<and>
      customers s' = customers demo0 \<and> technicians s' = technicians demo0 \<and>
      tickets s' = tickets demo0 \<and> has_id (js ''c-2'') item \<and>
      (\<forall>k. k \<noteq> js ''id'' \<longrightarrow> field item k =
         field (JObj [(js ''type'', JStr (js ''Phone'')), (js ''brand'', JUndefined),
                      (js ''model'', JUndefined), (js ''serial'', JUndefined)]) k))"
proof -
  have c: "customer_fields [(js ''name'', JStr (js ''Ann'')), (js ''phone'', JUndefined),
         (js ''email'', JStr (js ''ann@example.com''))] \<and>
       customers demo0 = JArr (elems (customers demo0))"
    by (simp add: customer_fields_def field_set_def field_Cons field_Nil opt_def demo0_def demo_def)
  have t: "technician_fields [(js ''name'', JStr (js ''Bob''))] \<and>
       technicians demo0 = JArr (elems (technicians demo0))"
    by (simp add: technician_fields_def field_set_def field_Cons field_Nil demo0_def demo_def)
  have d: "device_fields [(js ''type'', JStr (js ''Phone'')), (js ''brand'', JUndefined),
         (js ''model'', JUndefined), (js ''serial'', JUndefined)] \<and>
       devices demo0 = JArr (elems (devices demo0))"
    by (simp add: device_fields_def field_set_def field_Cons field_Nil opt_def demo0_def demo_def)
  have x: "ticket_fields [(js ''customerId'', JStr (js ''c-1'')), (js ''deviceId'', JStr (js ''d-1'')),
         (js ''problemDescription'', JStr (js ''No sound'')), (js ''status'', JStr (js ''New'')),
         (js ''technicianId'', JUndefined), (js ''estimatedCost'', JUndefined),
         (js ''notes'', JUndefined)] \<and>
       tickets demo0 = JArr (elems (tickets demo0))"
    by (simp add: ticket_fields_def field_set_def field_Cons field_Nil opt_def statuses_def
          demo0_def demo_def)
  from c t d x show ?thesis
    using add_prepends [of
      "[(js ''name'', JStr (js ''Ann'')), (js ''phone'', JUndefined),
         (js ''email'', JStr (js ''ann@example.com''))]"
      demo0 "elems (customers demo0)" "js ''c-2''"
      "[(js ''name'', JStr (js ''Bob''))]" "elems (technicians demo0)"
      "[(js ''type'', JStr (js ''Phone'')), (js ''brand'', JUndefined),
         (js ''model'', JUndefined), (js ''serial'', JUndefined)]" "elems (devices demo0)"
      "[(js ''customerId'', JStr (js ''c-1'')), (js ''deviceId'', JStr (js ''d-1'')),
         (js ''problemDescription'', JStr (js ''No sound'')), (js ''status'', JStr (js ''New'')),
         (js ''technicianId'', JUndefined), (js ''estimatedCost'', JUndefined),
         (js ''notes'', JUndefined)]" "elems (tickets demo0)" "js ''2024-06-01T00:00:00.000Z''"]
    by blast
qed

section \<open>Updating a ticket\<close>

lemma merged_object:
  assumes "has_id i tk" and "keys_distinct tk"
  obtains kvs where "tk = JObj kvs" and "distinct (map fst kvs)"
    and "merged tk u now = JObj (assign (assign kvs u) [(js ''updatedAt'', JStr now)])"
proof -
  from has_id_object [OF assms(1)] obtain kvs where kvs: "tk = JObj kvs" by blast
  with assms(2) have d: "distinct (map fst kvs)" by simp
  then have "merged tk u now = JObj (assign (assign kvs u) [(js ''updatedAt'', JStr now)])"
    by (simp add: merged_def kvs assign_Nil_distinct)
  with kvs d show ?thesis by (rule that)
qed

lemma field_merged_updatedAt: "field (merged tk u now) (js ''updatedAt'') = JStr now"
  by (simp add: merged_def field_assign_single)

lemma field_merged_other:
  assumes "has_id i tk" and "keys_distinct tk"
    and "k \<noteq> js ''updatedAt''" and "k \<notin> set (map fst u)"
  shows "field (merged tk u now) k = field tk k"
proof -
  from assms(1,2) obtain kvs where "tk = JObj kvs"
    and "merged tk u now = JObj (assign (assign kvs u) [(js ''updatedAt'', JStr now)])"
    by (rule merged_object)
  with assms(3,4) show ?thesis
    by (simp add: field_assign_single field_assign_notin del: set_map)
qed

lemma keys_distinct_merged: "keys_distinct (merged tk u now)"
  by (simp add: merged_def distinct_assign)

lemma proper_elems_keys: "proper_elems xs \<Longrightarrow> list_all keys_distinct xs"
proof (induction xs)
  case Nil
  then show ?case by simp
next
  case (Cons x xs)
  then show ?case by (cases x) auto
qed

lemma proper_keys: "proper v \<Longrightarrow> keys_distinct v"
  by (cases v) auto


lemma updateTicket_ok:
  assumes "tickets s = JArr xs" and "\<forall>tk \<in> set xs. \<not> is_nullish tk"
  shows "\<exists>s' ys. updateTicket clock i u s = Inr s' \<and> tickets s' = JArr ys \<and>
           customers s' = customers s \<and> technicians s' = technicians s \<and>
           devices s' = devices s \<and> length ys = length xs \<and>
           (\<forall>j < length xs. ys ! j =
              (if has_id i (xs ! j) then merged (xs ! j) u (clock j) else xs ! j))"
proof -
  from update_each_ok [OF assms(2), of clock i u 0] obtain ys
    where ys: "update_each clock i u 0 xs = Inr ys" "length ys = length xs"
      "\<forall>j < length xs. ys ! j =
          (if has_id i (xs ! j) then merged (xs ! j) u (clock j) else xs ! j)"
    by auto
  have "updateTicket clock i u s = Inr (persist (s\<lparr>tickets := JArr ys\<rparr>))"
    using assms(1) ys(1) by (simp add: updateTicket_def)
  with ys(2,3) show ?thesis by (simp add: persist_def)
qed

text \<open>
  C2, as the code has it. On tickets that can all be read,
  \<^verbatim>\<open>updateTicket(id, {status: "Ready"})\<close> returns a store with the same customers,
  technicians and devices and as many tickets as before; a ticket with another id is
  unchanged, and a ticket with the id has the status \<^verbatim>\<open>Ready\<close>, every field other than
  \<^verbatim>\<open>status\<close> and \<^verbatim>\<open>updatedAt\<close> as before, and as \<^verbatim>\<open>updatedAt\<close> the clock reading of the
  call, which is later than the old value only if the clock has advanced since.
\<close>

theorem updateTicket_status_frame:
  assumes "tickets s = JArr xs" and "\<forall>tk \<in> set xs. \<not> is_nullish tk \<and> proper tk"
  shows "\<exists>s' ys. updateTicket clock i [(js ''status'', JStr (js ''Ready''))] s = Inr s' \<and>
           tickets s' = JArr ys \<and> customers s' = customers s \<and>
           technicians s' = technicians s \<and> devices s' = devices s \<and>
           length ys = length xs \<and>
           (\<forall>j < length xs.
              if has_id i (xs ! j)
              then field (ys ! j) (js ''status'') = JStr (js ''Ready'') \<and>
                   field (ys ! j) (js ''updatedAt'') = JStr (clock j) \<and>
                   (\<forall>k. k \<noteq> js ''status'' \<and> k \<noteq> js ''updatedAt'' \<longrightarrow>
                        field (ys ! j) k = field (xs ! j) k)
              else ys ! j = xs ! j)"
proof -
  let ?u = "[(js ''status'', JStr (js ''Ready''))]"
  from assms(2) have nn: "\<forall>tk \<in> set xs. \<not> is_nullish tk" by simp
  from updateTicket_ok [OF assms(1) nn, of clock i ?u] obtain s' ys
    where r: "updateTicket clock i ?u s = Inr s'" "tickets s' = JArr ys"
      "customers s' = customers s" "technicians s' = technicians s" "devices s' = devices s"
      "length ys = length xs"
      and ys: "\<forall>j < length xs. ys ! j =
          (if has_id i (xs ! j) then merged (xs ! j) ?u (clock j) else xs ! j)"
    by blast
  have "if has_id i (xs ! j)
        then field (ys ! j) (js ''status'') = JStr (js ''Ready'') \<and>
             field (ys ! j) (js ''updatedAt'') = JStr (clock j) \<and>
             (\<forall>k. k \<noteq> js ''status'' \<and> k \<noteq> js ''updatedAt'' \<longrightarrow>
                  field (ys ! j) k = field (xs ! j) k)
        else ys ! j = xs ! j" if j: "j < length xs" for j
  proof (cases "has_id i (xs ! j)")
    case True
    from j assms(2) have kd: "keys_distinct (xs ! j)" by (simp add: proper_keys)
    from ys j True have m: "ys ! j = merged (xs ! j) ?u (clock j)" by simp
    from True kd obtain kvs where "xs ! j = JObj kvs"
      and "merged (xs ! j) ?u (clock j)
           = JObj (assign (assign kvs ?u) [(js ''updatedAt'', JStr (clock j))])"
      by (rule merged_object)
    with m True show ?thesis
      by (simp add: field_assign_single)
  next
    case False
    with ys j show ?thesis by simp
  qed
  with r show ?thesis by blast
qed

theorem updateTicket_status_frame_witness:
  "\<exists>s' ys. updateTicket (\<lambda>j. js ''2024-06-01T00:00:00.000Z'') (js ''k-1'')
               [(js ''status'', JStr (js ''Ready''))] demo0 = Inr s' \<and>
           tickets s' = JArr ys \<and> customers s' = customers demo0 \<and>
           technicians s' = technicians demo0 \<and> devices s' = devices demo0 \<and>
           length ys = length (elems (tickets demo0)) \<and>
           (\<forall>j < length (elems (tickets demo0)).
              if has_id (js ''k-1'') (elems (tickets demo0) ! j)
              then field (ys ! j) (js ''status'') = JStr (js ''Ready'') \<and>
                   field (ys ! j) (js ''updatedAt'') = JStr (js ''2024-06-01T00:00:00.000Z'') \<and>
                   (\<forall>k. k \<noteq> js ''status'' \<and> k \<noteq> js ''updatedAt'' \<longrightarrow>
                        field (ys ! j) k = field (elems (tickets demo0) ! j) k)
              else ys ! j = elems (tickets demo0) ! j)"
proof -
  have "tickets demo0 = JArr (elems (tickets demo0))"
    by (simp add: demo0_def demo_def)
  moreover have "\<forall>tk \<in> set (elems (tickets demo0)). \<not> is_nullish tk \<and> proper tk"
    by (simp add: demo0_def demo_def demo_ticket_def)
  ultimately show ?thesis by (rule updateTicket_status_frame)
qed

text \<open>
  The claim C2 asks for an \<^verbatim>\<open>updatedAt\<close> strictly greater than the previous one. The demo
  ticket updated at the very clock reading it was created at keeps its \<^verbatim>\<open>updatedAt\<close>.
\<close>

theorem updateTicket_same_instant:
  "\<not> str_less
       (text_of (field (hd (elems (tickets demo0))) (js ''updatedAt'')))
       (text_of (field (hd (elems (tickets
          (after (updateTicket (\<lambda>j. js ''2024-05-01T10:00:00.000Z'') (js ''k-1'')
                    [(js ''status'', JStr (js ''Ready''))]) demo0))))
          (js ''updatedAt'')))"
proof -
  have irrefl: "\<not> str_less t t" for t
    by (induction t) auto
  have "field (hd (elems (tickets
          (after (updateTicket (\<lambda>j. js ''2024-05-01T10:00:00.000Z'') (js ''k-1'')
                    [(js ''status'', JStr (js ''Ready''))]) demo0))))
          (js ''updatedAt'') = JStr (js ''2024-05-01T10:00:00.000Z'')"
    by (simp add: demo0_def demo_def demo_ticket_def updateTicket_def after_def persist_def
          field_merged_updatedAt)
  moreover have "field (hd (elems (tickets demo0))) (js ''updatedAt'')
      = JStr (js ''2024-05-01T10:00:00.000Z'')"
    by (simp add: demo0_def demo_def demo_ticket_def field_Cons)
  ultimately show ?thesis by (simp add: irrefl)
qed

text \<open>
  The claim C3 lets \<open>partialFields\<close> be arbitrary. A \<^verbatim>\<open>createdAt\<close> property in it is merged
  into the ticket like any other.
\<close>

theorem updateTicket_createdAt_overwritten:
  "field (hd (elems (tickets
      (after (updateTicket (\<lambda>j. js ''2024-06-01T00:00:00.000Z'') (js ''k-1'')
                [(js ''createdAt'', JStr (js ''1999-01-01T00:00:00.000Z''))]) demo0))))
      (js ''createdAt'')
   \<noteq> field (hd (elems (tickets demo0))) (js ''createdAt'')"
  by (simp add: demo0_def demo_def demo_ticket_def updateTicket_def after_def persist_def
        merged_def assign_def field_Cons)


lemma update_each_Inr:
  assumes "update_each clock i u n xs = Inr ys"
  shows "length ys = length xs \<and>
         (\<forall>j < length xs. ys ! j =
            (if has_id i (xs ! j) then merged (xs ! j) u (clock (n + j)) else xs ! j))"
  using assms
proof (induction xs arbitrary: n ys)
  case Nil
  then show ?case by simp
next
  case (Cons tk tks)
  from Cons.prems obtain v rest where v: "get_prop tk (js ''id'') = Inr v"
    and rest: "update_each clock i u (Suc n) tks = Inr rest"
    and ys: "ys = (if v = JStr i then merged tk u (clock n) else tk) # rest"
    by (auto simp: bindE_eq_Inr)
  from v have h: "has_id i tk \<longleftrightarrow> v = JStr i" by (simp add: has_id_def)
  from Cons.IH [OF rest] have len: "length rest = length tks"
    and nth: "\<forall>j < length tks. rest ! j =
        (if has_id i (tks ! j) then merged (tks ! j) u (clock (Suc n + j)) else tks ! j)"
    by simp_all
  show ?case
    using len nth by (auto simp: ys h nth_Cons split: nat.splits)
qed

lemma filter_nth_kept:
  assumes "p < length xs" and "P (xs ! p)"
  shows "length (filter P (take p xs)) < length (filter P xs) \<and>
         filter P xs ! length (filter P (take p xs)) = xs ! p"
proof -
  have "xs = take p xs @ xs ! p # drop (Suc p) xs"
    using assms(1) by (rule id_take_nth_drop)
  then have "filter P xs = filter P (take p xs) @ xs ! p # filter P (drop (Suc p) xs)"
    using assms(2) by (metis filter.simps(2) filter_append)
  then show ?thesis by (simp add: nth_append)
qed

lemma importAll_throws:
  "JSON_parse json = Inl e \<Longrightarrow> snd (importAll json s) = s"
  "JSON_parse json = Inr v \<Longrightarrow> is_nullish v \<Longrightarrow> snd (importAll json s) = s"
  by (cases v; simp add: importAll_def adopted_def)+

lemma removeTicket_throws:
  assumes "list_ex is_nullish (elems (tickets s))"
  shows "after (removeTicket i) s = s"
proof (cases "removeTicket i s")
  case (Inl e)
  then show ?thesis by (simp add: after_def)
next
  case (Inr t)
  then obtain xs where "tickets s = JArr xs" and "\<forall>tk \<in> set xs. \<not> is_nullish tk"
    unfolding removeTicket_Inr by blast
  with assms show ?thesis by (simp add: list_ex_iff)
qed

lemma tickets_after_addCustomer: "tickets (after (addCustomer uuid c) s) = tickets s"
  by (cases "iterate (customers s)") (simp_all add: addCustomer_def after_def persist_def Let_def)

lemma tickets_after_addTechnician: "tickets (after (addTechnician uuid c) s) = tickets s"
  by (cases "iterate (technicians s)") (simp_all add: addTechnician_def after_def persist_def Let_def)

lemma tickets_after_addDevice: "tickets (after (addDevice uuid c) s) = tickets s"
  by (cases "iterate (devices s)") (simp_all add: addDevice_def after_def persist_def Let_def)

lemma elems_array: "p < length (elems v) \<Longrightarrow> v = JArr (elems v)"
  by (cases v) simp_all

lemma step_followed:
  assumes "spares_created op" and "p < length (elems (tickets s))"
    and "keys_distinct (elems (tickets s) ! p)" and "moved op s p = Some q"
  shows "q < length (elems (tickets (step op s))) \<and>
         field (elems (tickets (step op s)) ! q) (js ''createdAt'')
           = field (elems (tickets s) ! p) (js ''createdAt'') \<and>
         keys_distinct (elems (tickets (step op s)) ! q)"
proof (cases op)
  case (AddCustomer uuid c)
  with assms show ?thesis by (simp add: tickets_after_addCustomer)
next
  case (AddTechnician uuid c)
  with assms show ?thesis by (simp add: tickets_after_addTechnician)
next
  case (AddDevice uuid c)
  with assms show ?thesis by (simp add: tickets_after_addDevice)
next
  case (AddTicket uuid now t)
  from elems_array [OF assms(2)] obtain xs where xs: "tickets s = JArr xs" by blast
  let ?item = "JObj (assign [(js ''id'', JStr uuid), (js ''createdAt'', JStr now),
                               (js ''updatedAt'', JStr now)] t)"
  have a: "addTicket uuid now t s = Inr (persist (s\<lparr>tickets := JArr (?item # xs)\<rparr>))"
    by (simp add: addTicket_def xs Let_def)
  from assms(4) AddTicket have q: "q = Suc p" by simp
  from assms(2,3) show ?thesis
    by (simp add: AddTicket a after_def persist_def q xs)
next
  case (UpdateTicket clock j u)
  with assms(1) have c: "js ''createdAt'' \<notin> set (map fst u)" by simp
  from assms(4) UpdateTicket have q: "q = p" by simp
  show ?thesis
  proof (cases "updateTicket clock j u s")
    case (Inl e)
    with UpdateTicket assms(2,3) show ?thesis by (simp add: after_def q)
  next
    case (Inr s')
    then obtain xs ys where xs: "tickets s = JArr xs"
      and ys: "update_each clock j u 0 xs = Inr ys"
      and s': "s' = persist (s\<lparr>tickets := JArr ys\<rparr>)"
      by (auto simp: updateTicket_def bindE_eq_Inr as_array_Inr)
    from assms(2,3) xs have p: "p < length xs" and kd: "keys_distinct (xs ! p)" by simp_all
    from update_each_Inr [OF ys] p have len: "length ys = length xs"
      and nth: "ys ! p = (if has_id j (xs ! p) then merged (xs ! p) u (clock p) else xs ! p)"
      by simp_all
    have "field (ys ! p) (js ''createdAt'') = field (xs ! p) (js ''createdAt'')
        \<and> keys_distinct (ys ! p)"
    proof (cases "has_id j (xs ! p)")
      case True
      have "field (merged (xs ! p) u (clock p)) (js ''createdAt'') = field (xs ! p) (js ''createdAt'')"
        using True kd _ c by (rule field_merged_other) simp
      with True nth show ?thesis by (simp add: keys_distinct_merged)
    next
      case False
      with nth kd show ?thesis by simp
    qed
    with p len show ?thesis
      by (simp add: UpdateTicket Inr after_def s' persist_def q xs)
  qed
next
  case (RemoveTicket j)
  from elems_array [OF assms(2)] obtain xs where xs: "tickets s = JArr xs" by blast
  show ?thesis
  proof (cases "list_ex is_nullish xs")
    case True
    with assms(4) RemoveTicket xs have q: "q = p" by simp
    from True xs have "after (removeTicket j) s = s"
      by (intro removeTicket_throws) simp
    with assms(2,3) show ?thesis by (simp add: RemoveTicket q)
  next
    case False
    with assms(4) RemoveTicket xs have n: "\<not> has_id j (xs ! p)"
      and q: "q = length (filter (\<lambda>tk. \<not> has_id j tk) (take p xs))"
      by (simp_all add: Let_def split: if_splits)
    from False have "\<forall>tk \<in> set xs. \<not> is_nullish tk" by (simp add: list_ex_iff)
    with xs have r: "removeTicket j s
        = Inr (persist (s\<lparr>tickets := JArr (filter (\<lambda>tk. \<not> has_id j tk) xs)\<rparr>))"
      unfolding removeTicket_Inr by blast
    from assms(2) xs have p: "p < length xs" by simp
    from filter_nth_kept [of p xs "\<lambda>tk. \<not> has_id j tk", OF p n] assms(3)
    show ?thesis
      by (simp add: RemoveTicket r after_def persist_def q xs)
  qed
next
  case (ImportAll json)
  show ?thesis
  proof (cases "JSON_parse json")
    case (Inl e)
    with assms(4) ImportAll have q: "q = p" by simp
    from importAll_throws(1) [OF Inl] assms(2,3) show ?thesis
      by (simp add: ImportAll q)
  next
    case (Inr v)
    with assms(4) ImportAll have v: "is_nullish v" and q: "q = p"
      by (simp_all split: if_splits)
    from importAll_throws(2) [OF Inr v] assms(2,3) show ?thesis
      by (simp add: ImportAll q)
  qed
qed

lemma run_followed:
  assumes "list_all spares_created ops" and "p < length (elems (tickets s))"
    and "keys_distinct (elems (tickets s) ! p)" and "followed ops s p = Some q"
  shows "q < length (elems (tickets (run ops s))) \<and>
         field (elems (tickets (run ops s)) ! q) (js ''createdAt'')
           = field (elems (tickets s) ! p) (js ''createdAt'')"
  using assms
proof (induction ops arbitrary: s p)
  case Nil
  then show ?case by (simp add: run_def)
next
  case (Cons op ops)
  from Cons.prems(1) have k: "spares_created op" and ks: "list_all spares_created ops"
    by simp_all
  from Cons.prems(4) obtain r where r: "moved op s p = Some r"
    and f: "followed ops (step op s) r = Some q"
    by (auto split: option.splits)
  from step_followed [OF k Cons.prems(2,3) r]
  have a: "r < length (elems (tickets (step op s)))"
    and b: "field (elems (tickets (step op s)) ! r) (js ''createdAt'')
           = field (elems (tickets s) ! p) (js ''createdAt'')"
    and c: "keys_distinct (elems (tickets (step op s)) ! r)" by simp_all
  from Cons.IH [OF ks a c f] b show ?case by (simp add: run_def)
qed

text \<open>
  C3, as the code has it. Over any sequence of \<^verbatim>\<open>addCustomer\<close>, \<^verbatim>\<open>addTechnician\<close>,
  \<^verbatim>\<open>addDevice\<close>, \<^verbatim>\<open>addTicket\<close>, \<^verbatim>\<open>updateTicket\<close>, \<^verbatim>\<open>removeTicket\<close> and \<^verbatim>\<open>importAll\<close>
  calls in which no \<^verbatim>\<open>updateTicket\<close> argument has a \<^verbatim>\<open>createdAt\<close> property, a ticket that
  is still in the collection at the end, at the place the operations have moved it to, has
  the \<^verbatim>\<open>createdAt\<close> it had at the start. And \<^verbatim>\<open>updateTicket\<close>, whatever its argument, sets
  the \<^verbatim>\<open>updatedAt\<close> of every ticket with the id to the clock reading.
\<close>

theorem createdAt_kept_updatedAt_refreshed:
  "(list_all spares_created ops \<and> p < length (elems (tickets s)) \<and>
    keys_distinct (elems (tickets s) ! p) \<and> followed ops s p = Some q \<longrightarrow>
      q < length (elems (tickets (run ops s))) \<and>
      field (elems (tickets (run ops s)) ! q) (js ''createdAt'')
        = field (elems (tickets s) ! p) (js ''createdAt'')) \<and>
   (tickets s = JArr xs \<and> (\<forall>tk \<in> set xs. \<not> is_nullish tk) \<longrightarrow>
      (\<exists>s' ys. updateTicket clock i u s = Inr s' \<and> tickets s' = JArr ys \<and>
         length ys = length xs \<and>
         (\<forall>j < length xs. has_id i (xs ! j) \<longrightarrow>
            field (ys ! j) (js ''updatedAt'') = JStr (clock j))))"
proof (intro conjI impI)
  assume a: "list_all spares_created ops \<and> p < length (elems (tickets s)) \<and>
    keys_distinct (elems (tickets s) ! p) \<and> followed ops s p = Some q"
  then have "q < length (elems (tickets (run ops s))) \<and>
      field (elems (tickets (run ops s)) ! q) (js ''createdAt'')
        = field (elems (tickets s) ! p) (js ''createdAt'')"
    by (intro run_followed) simp_all
  then show "q < length (elems (tickets (run ops s)))"
    and "field (elems (tickets (run ops s)) ! q) (js ''createdAt'')
        = field (elems (tickets s) ! p) (js ''createdAt'')"
    by simp_all
next
  assume a: "tickets s = JArr xs \<and> (\<forall>tk \<in> set xs. \<not> is_nullish tk)"
  then have x: "tickets s = JArr xs" and nn: "\<forall>tk \<in> set xs. \<not> is_nullish tk" by simp_all
  from updateTicket_ok [OF x nn, of clock i u] obtain s' ys
    where r: "updateTicket clock i u s = Inr s'" "tickets s' = JArr ys" "length ys = length xs"
      and ys: "\<forall>j < length xs. ys ! j =
          (if has_id i (xs ! j) then merged (xs ! j) u (clock j) else xs ! j)"
    by blast
  from ys have "\<forall>j < length xs. has_id i (xs ! j) \<longrightarrow>
            field (ys ! j) (js ''updatedAt'') = JStr (clock j)"
    by (simp add: field_merged_updatedAt)
  with r show "\<exists>s' ys. updateTicket clock i u s = Inr s' \<and> tickets s' = JArr ys \<and>
         length ys = length xs \<and>
         (\<forall>j < length xs. has_id i (xs ! j) \<longrightarrow>
            field (ys ! j) (js ''updatedAt'') = JStr (clock j))"
    by blast
qed

theorem createdAt_kept_updatedAt_refreshed_witness:
  "list_all spares_created relabel \<and> 0 < length (elems (tickets demo0)) \<and>
   keys_distinct (elems (tickets demo0) ! 0) \<and> followed relabel demo0 0 = Some 0 \<and>
   0 < length (elems (tickets (run relabel demo0))) \<and>
   field (elems (tickets (run relabel demo0)) ! 0) (js ''createdAt'')
     = field (elems (tickets demo0) ! 0) (js ''createdAt'') \<and>
   (\<exists>s' ys. updateTicket (\<lambda>j. js ''2024-06-01T00:00:00.000Z'') (js ''k-1'')
                [(js ''updatedAt'', JStr (js ''1999-01-01T00:00:00.000Z''))] demo0 = Inr s' \<and>
      tickets s' = JArr ys \<and> length ys = length (elems (tickets demo0)) \<and>
      (\<forall>j < length (elems (tickets demo0)). has_id (js ''k-1'') (elems (tickets demo0) ! j) \<longrightarrow>
         field (ys ! j) (js ''updatedAt'') = JStr (js ''2024-06-01T00:00:00.000Z'')))"
proof -
  have a: "list_all spares_created relabel \<and> 0 < length (elems (tickets demo0)) \<and>
      keys_distinct (elems (tickets demo0) ! 0) \<and> followed relabel demo0 0 = Some 0"
    by (simp add: relabel_def demo0_def demo_def demo_ticket_def updateTicket_def addTicket_def
          removeTicket_def after_def persist_def merged_def assign_def has_id_def Let_def)
  have b: "tickets demo0 = JArr (elems (tickets demo0)) \<and>
       (\<forall>tk \<in> set (elems (tickets demo0)). \<not> is_nullish tk)"
    by (simp add: demo0_def demo_def demo_ticket_def)
  from a b show ?thesis
    using createdAt_kept_updatedAt_refreshed [of relabel 0 demo0 0 "elems (tickets demo0)"
      "\<lambda>j. js ''2024-06-01T00:00:00.000Z''" "js ''k-1''"
      "[(js ''updatedAt'', JStr (js ''1999-01-01T00:00:00.000Z''))]"]
    by blast
qed

section \<open>The ticket filter\<close>

lemma get_prop_object: "is_object v \<Longrightarrow> get_prop v k = Inr (field v k)"
  by (cases v) (simp_all add: field_def)

lemma opt_prop_object: "is_object v \<Longrightarrow> opt_prop v k = Inr (field v k)"
  by (cases v) (simp_all add: opt_prop_def field_def)

lemma opt_prop_undefined: "opt_prop JUndefined k = Inr JUndefined"
  by (simp add: opt_prop_def)

lemma field_undefined: "field JUndefined k = JUndefined"
  by (simp add: field_def)

lemma strict_eq_string: "is_string a \<Longrightarrow> strict_eq a b \<longleftrightarrow> a = b"
  by (cases a; cases b) auto

lemma findE_typed:
  assumes "\<forall>c \<in> set xs. is_object c \<and> is_string (field c (js ''id''))"
  shows "findE (\<lambda>c. bindE (get_prop c (js ''id'')) (\<lambda>a. bindE (Inr b) (\<lambda>b. Inr (strict_eq a b)))) xs
         = Inr (case find (\<lambda>e. field e (js ''id'') = b) xs of None \<Rightarrow> JUndefined | Some e \<Rightarrow> e)"
  using assms by (induction xs) (simp_all add: get_prop_object strict_eq_string)

lemma find_by_typed:
  assumes "array_of p coll" and "\<And>c. p c \<Longrightarrow> is_object c \<and> is_string (field c (js ''id''))"
    and "is_object t"
  shows "find_by coll t k
         = Inr (case joined coll (field t k) of None \<Rightarrow> JUndefined | Some e \<Rightarrow> e)"
proof -
  from assms(1) obtain xs where xs: "coll = JArr xs" "list_all p xs"
    by (cases coll) auto
  with assms(2) have "\<forall>c \<in> set xs. is_object c \<and> is_string (field c (js ''id''))"
    by (simp add: list_all_iff)
  from findE_typed [OF this, of "field t k"] show ?thesis
    using xs(1) assms(3) by (simp add: find_by_def joined_def get_prop_object)
qed

lemma joined_typed:
  assumes "array_of p coll" and "joined coll r = Some e"
  shows "p e"
proof -
  from assms(1) obtain xs where xs: "coll = JArr xs" "list_all p xs"
    by (cases coll) auto
  from assms(2) xs(1) have "e \<in> set xs"
    by (auto simp: joined_def find_Some_iff)
  with xs(2) show ?thesis by (simp add: list_all_iff)
qed

lemma join_elems_texts:
  assumes "\<forall>p \<in> set ps. p = JUndefined \<or> is_string p"
  shows "join_elems (filter truthy ps) = Inr (filter (\<lambda>p. p \<noteq> []) (map text_of ps))"
  using assms
proof (induction ps)
  case Nil
  then show ?case by simp
next
  case (Cons p ps)
  then have IH: "join_elems (filter truthy ps) = Inr (filter (\<lambda>p. p \<noteq> []) (map text_of ps))"
    by simp
  from Cons.prems have "p = JUndefined \<or> is_string p" by simp
  then show ?case
  proof
    assume "p = JUndefined"
    with IH show ?thesis by simp
  next
    assume "is_string p"
    then obtain t where "p = JStr t" by (cases p) auto
    with IH show ?thesis by simp
  qed
qed

lemma opt_string: "opt is_string v \<Longrightarrow> v = JUndefined \<or> is_string v"
  by (simp add: opt_def)

lemma passes_typed:
  assumes "typed s" and "is_Ticket t"
  shows "passes lower filt search s t = Inr (matches lower filt search s t)"
proof -
  from assms(2) have obj: "is_object t"
    and pd: "is_string (field t (js ''problemDescription''))"
    by (simp_all add: is_Ticket_def)
  from assms(1) have cs: "array_of is_Customer (customers s)"
    and ds: "array_of is_Device (devices s)"
    and ts: "array_of is_Technician (technicians s)"
    by (simp_all add: typed_def)
  define cust where "cust = joined (customers s) (field t (js ''customerId''))"
  define dev where "dev = joined (devices s) (field t (js ''deviceId''))"
  define tech where "tech = joined (technicians s) (field t (js ''technicianId''))"
  define val where "val = (\<lambda>e. case e of None \<Rightarrow> JUndefined | Some (v :: jsval) \<Rightarrow> v)"
  have fc: "find_by (customers s) t (js ''customerId'') = Inr (val cust)"
    unfolding cust_def val_def
    by (rule find_by_typed [OF cs _ obj]) (simp add: is_Customer_def)
  have fd: "find_by (devices s) t (js ''deviceId'') = Inr (val dev)"
    unfolding dev_def val_def
    by (rule find_by_typed [OF ds _ obj]) (simp add: is_Device_def)
  have ft: "find_by (technicians s) t (js ''technicianId'') = Inr (val tech)"
    unfolding tech_def val_def
    by (rule find_by_typed [OF ts _ obj]) (simp add: is_Technician_def)
  have oc: "opt_prop (val cust) k = Inr (field (val cust) k)" for k
  proof (cases cust)
    case None
    then show ?thesis by (simp add: val_def opt_prop_undefined field_undefined)
  next
    case (Some e)
    then have "is_Customer e" using joined_typed [OF cs] by (simp add: cust_def)
    with Some show ?thesis by (simp add: val_def opt_prop_object is_Customer_def)
  qed
  have od: "opt_prop (val dev) k = Inr (field (val dev) k)" for k
  proof (cases dev)
    case None
    then show ?thesis by (simp add: val_def opt_prop_undefined field_undefined)
  next
    case (Some e)
    then have "is_Device e" using joined_typed [OF ds] by (simp add: dev_def)
    with Some show ?thesis by (simp add: val_def opt_prop_object is_Device_def)
  qed
  have ot: "opt_prop (val tech) k = Inr (field (val tech) k)" for k
  proof (cases tech)
    case None
    then show ?thesis by (simp add: val_def opt_prop_undefined field_undefined)
  next
    case (Some e)
    then have "is_Technician e" using joined_typed [OF ts] by (simp add: tech_def)
    with Some show ?thesis by (simp add: val_def opt_prop_object is_Technician_def)
  qed
  let ?parts = "[field t (js ''problemDescription''),
      field (val cust) (js ''name''), field (val cust) (js ''phone''),
      field (val cust) (js ''email''),
      field (val dev) (js ''brand''), field (val dev) (js ''model''),
      field (val dev) (js ''serial''), field (val tech) (js ''name'')]"
  have tc: "\<forall>k \<in> {js ''name'', js ''phone'', js ''email''}.
      field (val cust) k = JUndefined \<or> is_string (field (val cust) k)"
  proof (cases cust)
    case None
    then show ?thesis by (simp add: val_def field_undefined)
  next
    case (Some e)
    then have "is_Customer e" using joined_typed [OF cs] by (simp add: cust_def)
    with Some show ?thesis by (auto simp: val_def is_Customer_def dest: opt_string)
  qed
  have td: "\<forall>k \<in> {js ''brand'', js ''model'', js ''serial''}.
      field (val dev) k = JUndefined \<or> is_string (field (val dev) k)"
  proof (cases dev)
    case None
    then show ?thesis by (simp add: val_def field_undefined)
  next
    case (Some e)
    then have "is_Device e" using joined_typed [OF ds] by (simp add: dev_def)
    with Some show ?thesis by (auto simp: val_def is_Device_def dest: opt_string)
  qed
  have tt: "field (val tech) (js ''name'') = JUndefined \<or> is_string (field (val tech) (js ''name''))"
  proof (cases tech)
    case None
    then show ?thesis by (simp add: val_def field_undefined)
  next
    case (Some e)
    then have "is_Technician e" using joined_typed [OF ts] by (simp add: tech_def)
    with Some show ?thesis by (auto simp: val_def is_Technician_def)
  qed
  have "\<forall>p \<in> set ?parts. p = JUndefined \<or> is_string p"
    using pd tc td tt by simp
  from join_elems_texts [OF this]
  have je: "join_elems (filter truthy ?parts)
      = Inr (filter (\<lambda>p. p \<noteq> []) (map text_of ?parts))" .
  have "filter (\<lambda>p. p \<noteq> []) (map text_of ?parts) = filter (\<lambda>p. p \<noteq> []) (search_parts s t)"
    unfolding search_parts_def cust_def [symmetric] dev_def [symmetric] tech_def [symmetric]
    by (cases cust; cases dev; cases tech) (simp_all add: val_def field_undefined)
  with je have hay: "haystack lower ?parts = Inr (lower (search_text s t))"
    by (simp add: haystack_def search_text_def)
  have st: "(if filt = js ''All'' then Inr True
            else bindE (get_prop t (js ''status'')) (\<lambda>v. Inr (strict_eq v (JStr filt))))
      = Inr (status_passes filt t)"
    using obj by (simp add: status_passes_def get_prop_object)
  show ?thesis
    unfolding passes_def st
    by (simp add: fc fd ft oc od ot get_prop_object [OF obj] hay matches_def)
qed

text \<open>
  C9, as the code has it. In a store whose collections hold entities of the four
  interfaces, the filtered list is the subsequence of the tickets whose status is the
  filter (or the filter is \<^verbatim>\<open>All\<close>) and for which the search term is empty or, in lower
  case, a substring of the lower-case search text: the problem description and the
  fields of the customer, device and technician referred to, those that are not empty,
  with one space between them. A reference to no entity contributes nothing.
\<close>

theorem filteredTickets_spec:
  assumes "typed s"
  shows "filteredTickets lower filt search s
         = Inr (filter (matches lower filt search s) (elems (tickets s)))"
proof -
  from assms obtain xs where xs: "tickets s = JArr xs" "list_all is_Ticket xs"
    by (cases "tickets s") (auto simp: typed_def)
  then have "\<forall>t \<in> set xs. passes lower filt search s t = Inr (matches lower filt search s t)"
    using passes_typed [OF assms] by (simp add: list_all_iff)
  then have "filterE (passes lower filt search s) xs
      = Inr (filter (\<lambda>t. passes lower filt search s t = Inr True) xs)"
    by (intro filterE_total) auto
  also have "filter (\<lambda>t. passes lower filt search s t = Inr True) xs
      = filter (matches lower filt search s) xs"
    using \<open>\<forall>t \<in> set xs. passes lower filt search s t = Inr (matches lower filt search s t)\<close>
    by (intro filter_cong) auto
  finally show ?thesis using xs(1) by (simp add: filteredTickets_def)
qed


lemma typed_demo0: "typed demo0"
  by (simp add: typed_def demo0_def demo_def demo_ticket_def is_Customer_def is_Technician_def
        is_Device_def is_Ticket_def field_def opt_def statuses_def)

theorem filteredTickets_spec_witness:
  "filteredTickets ascii_lower (js ''Diagnosing'') (js ''dell'') demo0 = Inr (elems (tickets demo0)) \<and>
   filteredTickets ascii_lower (js ''Ready'') [] demo0 = Inr []"
proof -
  have "filteredTickets ascii_lower filt search demo0
         = Inr (filter (matches ascii_lower filt search demo0) (elems (tickets demo0)))"
    for filt search
    using typed_demo0 by (rule filteredTickets_spec)
  moreover have "matches ascii_lower (js ''Diagnosing'') (js ''dell'') demo0
      (demo_ticket (js ''c-1'') (js ''u-1'') (js ''d-1'') (js ''k-1'') (js ''2024-05-01T10:00:00.000Z''))"
    by (simp add: matches_def status_passes_def search_text_def search_parts_def joined_def
          demo0_def demo_def demo_ticket_def field_def ascii_lower_def js_def ch_def)
  moreover have "\<not> matches ascii_lower (js ''Ready'') [] demo0
      (demo_ticket (js ''c-1'') (js ''u-1'') (js ''d-1'') (js ''k-1'') (js ''2024-05-01T10:00:00.000Z''))"
    by (simp add: matches_def status_passes_def demo_ticket_def field_def)
  ultimately show ?thesis
    by (simp add: demo0_def demo_def)
qed

text \<open>
  The claim C9 speaks of the concatenation of the fields. The search term
  \<^verbatim>\<open>failure john\<close> runs from the end of the demo ticket's problem description into the
  customer's name: the view lists the ticket, and the fields put one after the other
  with nothing in between do not contain the term.
\<close>

theorem filteredTickets_not_concatenation:
  "filteredTickets ascii_lower (js ''All'') (js ''failure john'') demo0
   \<noteq> Inr (filter (claimed_match ascii_lower (js ''All'') (js ''failure john'') demo0)
            (elems (tickets demo0)))"
proof -
  have "filteredTickets ascii_lower (js ''All'') (js ''failure john'') demo0
        = Inr (elems (tickets demo0))"
    by (simp add: filteredTickets_def passes_def find_by_def haystack_def demo0_def demo_def
          demo_ticket_def opt_prop_def ascii_lower_def js_def ch_def)
  moreover have "\<not> claimed_match ascii_lower (js ''All'') (js ''failure john'') demo0
      (demo_ticket (js ''c-1'') (js ''u-1'') (js ''d-1'') (js ''k-1'') (js ''2024-05-01T10:00:00.000Z''))"
    by (simp add: claimed_match_def status_passes_def claimed_text_def search_parts_def joined_def
          demo0_def demo_def demo_ticket_def field_def ascii_lower_def js_def ch_def)
  ultimately show ?thesis
    by (simp add: demo0_def demo_def)
qed


section \<open>Reading back the text of a string\<close>

lemma ocons_Some [simp]: "ocons x (Some xs) = Some (x # xs)"
  by (simp add: ocons_def)

lemma ocons_None [simp]: "ocons x None = None"
  by (simp add: ocons_def)

lemma ocons_append: "ocons x (map_option ((@) xs) r) = map_option ((@) (x # xs)) r"
  by (cases r) simp_all

lemma unat_of_nat16: "m < 65536 \<Longrightarrow> unat (of_nat m :: 16 word) = m"
  by (simp add: unat_of_nat take_bit_nat_eq_self)

lemma hex_val_hex_char:
  assumes "n < 16"
  shows "hex_val (hex_char n) = Some n"
proof -
  have a: "unat (of_nat (48 + n) :: 16 word) = 48 + n"
    by (rule unat_of_nat16) (use assms in linarith)
  have b: "unat (of_nat (87 + n) :: 16 word) = 87 + n"
    by (rule unat_of_nat16) (use assms in linarith)
  show ?thesis
    using assms unfolding hex_val_def hex_char_def word_le_nat_alt
    by (simp add: a b del: of_nat_add)
qed

lemma nibbles:
  fixes n :: nat
  shows "((n div 4096 * 16 + n div 256 mod 16) * 16 + n div 16 mod 16) * 16 + n mod 16 = n"
proof -
  have a: "n div 256 div 16 = n div 4096"
    using div_mult2_eq [of n 256 16] by simp
  have b: "n div 16 div 16 = n div 256"
    using div_mult2_eq [of n 16 16] by simp
  have "n div 4096 * 16 + n div 256 mod 16 = n div 256"
    using div_mult_mod_eq [of "n div 256" 16] unfolding a .
  moreover have "n div 256 * 16 + n div 16 mod 16 = n div 16"
    using div_mult_mod_eq [of "n div 16" 16] unfolding b .
  ultimately show ?thesis
    using div_mult_mod_eq [of n 16] by simp
qed

lemma hex4_uesc:
  "hex4 (hex_char (unat c div 4096)) (hex_char (unat c div 256 mod 16))
        (hex_char (unat c div 16 mod 16)) (hex_char (unat c mod 16)) = Some c"
proof -
  have lt: "unat c < 65536" using unsigned_less [of c, where 'a = nat] by simp
  then have "unat c div 4096 < 16" by simp
  then show ?thesis
    using nibbles [of "unat c"] by (simp add: hex4_def hex_val_hex_char)
qed

lemma lex_str_uesc: "lex_str acc (uesc c @ r) = lex_str (c # acc) r"
  by (simp add: uesc_def hex4_uesc ch_def)

lemma lex_str_esc1: "lex_str acc (esc1 c @ r) = lex_str (c # acc) r"
  by (simp add: esc1_def lex_str_uesc unescape_def ch_def is_high_def is_low_def)

lemma high_plain: "is_high c \<Longrightarrow> c \<noteq> 0x22 \<and> c \<noteq> 0x5C \<and> \<not> c < 0x20"
  unfolding is_high_def word_le_nat_alt word_less_nat_alt
  by auto

lemma low_plain: "is_low c \<Longrightarrow> c \<noteq> 0x22 \<and> c \<noteq> 0x5C \<and> \<not> c < 0x20"
  unfolding is_low_def word_le_nat_alt word_less_nat_alt
  by auto

declare lex.simps [simp del] lex_str.simps [simp del]

lemma lex_str_end: "lex_str acc (0x22 # cs) = ocons (TStr (rev acc)) (lex cs)"
  by (simp add: lex_str.simps)

lemma lex_str_plain:
  "c \<noteq> 0x22 \<Longrightarrow> c \<noteq> 0x5C \<Longrightarrow> \<not> c < 0x20 \<Longrightarrow> lex_str acc (c # cs) = lex_str (c # acc) cs"
  by (simp add: lex_str.simps)

lemma lex_str_quote_body:
  "lex_str acc (quote_body s @ 0x22 # rest) = ocons (TStr (rev acc @ s)) (lex rest)"
proof (induction s arbitrary: acc rule: quote_body.induct)
  case 1
  then show ?case by (simp add: lex_str_end)
next
  case (2 c)
  then show ?case by (simp add: lex_str_esc1 lex_str_end)
next
  case (3 c d cs)
  show ?case
  proof (cases "is_high c \<and> is_low d")
    case True
    then have q: "quote_body (c # d # cs) = c # d # quote_body cs"
      by simp
    have "lex_str acc (c # d # quote_body cs @ 0x22 # rest)
        = lex_str (d # c # acc) (quote_body cs @ 0x22 # rest)"
      using True high_plain [of c] low_plain [of d] by (simp add: lex_str_plain)
    with 3(1) [OF True, of "d # c # acc"] show ?thesis unfolding q by simp
  next
    case False
    then have q: "quote_body (c # d # cs) = esc1 c @ quote_body (d # cs)"
      by (simp only: quote_body.simps if_False)
    have "lex_str acc (esc1 c @ quote_body (d # cs) @ 0x22 # rest)
        = lex_str (c # acc) (quote_body (d # cs) @ 0x22 # rest)"
      by (rule lex_str_esc1)
    with 3(2) [OF False, of "c # acc"] show ?thesis unfolding q by simp
  qed
qed

lemma lex_quote: "lex (quote s @ rest) = ocons (TStr s) (lex rest)"
  using lex_str_quote_body [of "[]" s rest]
  by (simp add: quote_def lex.simps is_ws_def ch_def)


section \<open>Reading back the text of a number\<close>

lemma unat_digit_char: "d < 10 \<Longrightarrow> unat (digit_char d) = 48 + d"
  unfolding digit_char_def by (rule unat_of_nat16) linarith

lemma is_digit_iff: "is_digit c \<longleftrightarrow> 48 \<le> unat c \<and> unat c \<le> 57"
  by (simp add: is_digit_def word_le_nat_alt)

lemma is_digit_digit_char: "d < 10 \<Longrightarrow> is_digit (digit_char d)"
  by (simp add: is_digit_iff unat_digit_char)

lemma digit_val_digit_char: "d < 10 \<Longrightarrow> digit_val (digit_char d) = d"
  by (simp add: digit_val_def unat_digit_char)

lemma digit_char_eq_0: "d < 10 \<Longrightarrow> digit_char d = ch CHR ''0'' \<longleftrightarrow> d = 0"
proof -
  assume d: "d < 10"
  have "digit_char d = ch CHR ''0'' \<longleftrightarrow> unat (digit_char d) = unat (ch CHR ''0'')"
    by (simp add: word_unat_eq_iff)
  then show ?thesis using d by (simp add: unat_digit_char unat_ch)
qed

lemma digits_all: "list_all (\<lambda>d. d < 10) ds \<Longrightarrow> list_all is_digit (digits_str ds)"
  by (simp add: digits_str_def list_all_iff is_digit_digit_char)

lemma digits_vals: "list_all (\<lambda>d. d < 10) ds \<Longrightarrow> map digit_val (digits_str ds) = ds"
  by (induction ds) (simp_all add: digits_str_def digit_val_digit_char)

lemma digits_str_append: "digits_str (xs @ ys) = digits_str xs @ digits_str ys"
  by (simp add: digits_str_def)

lemma digits_str_Nil: "digits_str ds = [] \<longleftrightarrow> ds = []"
  by (simp add: digits_str_def)

lemma length_digits_str: "length (digits_str ds) = length ds"
  by (simp add: digits_str_def)

lemma takeWhile_digits:
  "list_all (\<lambda>d. d < 10) ds \<Longrightarrow>
     takeWhile is_digit (digits_str ds @ r) = digits_str ds @ takeWhile is_digit r"
  by (rule takeWhile_append2) (use digits_all [of ds] in \<open>simp add: list_all_iff\<close>)

lemma dropWhile_digits:
  "list_all (\<lambda>d. d < 10) ds \<Longrightarrow> dropWhile is_digit (digits_str ds @ r) = dropWhile is_digit r"
  by (rule dropWhile_append2) (use digits_all [of ds] in \<open>simp add: list_all_iff\<close>)

lemma dec_all: "list_all (\<lambda>d. d < 10) (dec n)"
  by (induction n rule: dec.induct) (subst dec.simps, simp)

lemma dec_nonempty: "dec n \<noteq> []"
  by (subst dec.simps) simp

lemma nat_of_digits_snoc: "nat_of_digits (ds @ [d]) = 10 * nat_of_digits ds + d"
  by (simp add: nat_of_digits_def)

lemma nat_of_digits_dec: "nat_of_digits (dec n) = n"
proof (induction n rule: dec.induct)
  case (1 n)
  show ?case
  proof (cases "n < 10")
    case True
    then show ?thesis by (subst dec.simps) (simp add: nat_of_digits_def)
  next
    case False
    with 1 show ?thesis by (subst dec.simps) (simp add: nat_of_digits_snoc)
  qed
qed

lemma exponent_text:
  "exponent (ch CHR ''e'' # (if 0 \<le> m then ch CHR ''+'' else ch CHR ''-'') # nat_str (nat \<bar>m\<bar>))
     = Some m"
proof -
  have d: "list_all is_digit (nat_str (nat \<bar>m\<bar>))" and n: "nat_str (nat \<bar>m\<bar>) \<noteq> []"
    and v: "map digit_val (nat_str (nat \<bar>m\<bar>)) = dec (nat \<bar>m\<bar>)"
    by (simp_all add: nat_str_def digits_all dec_all digits_vals digits_str_Nil dec_nonempty)
  show ?thesis
    using d n by (simp add: v nat_of_digits_dec)
qed

lemma normalise_padded:
  assumes "ds \<noteq> []" and "hd ds \<noteq> 0" and "last ds \<noteq> 0"
  shows "normalise neg (replicate a 0 @ ds @ replicate b 0) n0 = Fin neg ds (n0 - int a)"
proof -
  obtain d ds' where ds: "ds = d # ds'" using assms(1) by (cases ds) auto
  with assms(2) have d: "d \<noteq> 0" by simp
  have tw: "takeWhile (\<lambda>d. d = 0) (replicate a 0 @ ds @ replicate b 0) = replicate a (0::nat)"
    using d by (subst takeWhile_append2) (auto simp: ds)
  have dw: "dropWhile (\<lambda>d. d = 0) (replicate a 0 @ ds @ replicate b 0) = ds @ replicate b (0::nat)"
    using d by (subst dropWhile_append2) (auto simp: ds)
  obtain e es where es: "rev ds = e # es" using assms(1) by (cases "rev ds") auto
  then have "last ds = e" by (metis last_rev hd_rev list.sel(1) rev_rev_ident)
  with assms(3) have e: "e \<noteq> 0" by simp
  have "dropWhile (\<lambda>d. d = 0) (rev (ds @ replicate b 0)) = rev ds"
    using e by (subst rev_append, subst dropWhile_append2) (auto simp: es)
  then have dr: "rev (dropWhile (\<lambda>d. d = 0) (rev (ds @ replicate b 0))) = ds"
    by simp
  show ?thesis
    unfolding normalise_def Let_def tw dw dr using assms(1) by simp
qed

lemma normalise_zero: "normalise neg (replicate a 0) n0 = Fin False [] 0"
  by (simp add: normalise_def Let_def)

lemma not_digit [simp]:
  "\<not> is_digit (ch CHR ''.'')" "\<not> is_digit (ch CHR ''e'')" "\<not> is_digit (ch CHR ''-'')"
  "\<not> is_digit (ch CHR ''+'')" "\<not> is_digit (ch CHR ''E'')"
  by (simp_all add: is_digit_iff unat_ch)

lemma hd_digits_str: "ds \<noteq> [] \<Longrightarrow> hd (digits_str ds) = digit_char (hd ds)"
  by (cases ds) (simp_all add: digits_str_def)

lemma digit_char_not_minus: "d < 10 \<Longrightarrow> digit_char d \<noteq> ch CHR ''-''"
  using is_digit_digit_char [of d] by auto

lemma num_of_literal_parts:
  assumes ip: "ip \<noteq> []" "list_all (\<lambda>d. d < 10) ip" "length ip = 1 \<or> hd ip \<noteq> 0"
    and fp: "list_all (\<lambda>d. d < 10) fp"
    and ex: "exponent etxt = Some ex" "etxt = [] \<or> hd etxt = ch CHR ''e''"
  shows "num_of_literal ((if neg then [ch CHR ''-''] else []) @ digits_str ip
            @ (if fp = [] then [] else ch CHR ''.'' # digits_str fp) @ etxt)
         = Some (normalise neg (ip @ fp) (int (length ip) + ex))"
proof -
  define rest where "rest = (if fp = [] then [] else ch CHR ''.'' # digits_str fp) @ etxt"
  define t where "t = (if neg then [ch CHR ''-''] else []) @ digits_str ip @ rest"
  have hd_ip: "hd ip < 10" using ip(1,2) by (cases ip) simp_all
  have neg: "(t \<noteq> [] \<and> hd t = ch CHR ''-'') = neg"
    using ip(1) hd_ip
    by (auto simp: t_def digits_str_Nil hd_append hd_digits_str digit_char_not_minus)
  have t1: "(if neg then tl t else t) = digits_str ip @ rest"
    by (simp add: t_def)
  have rest_nd: "takeWhile is_digit rest = []" and rest_dw: "dropWhile is_digit rest = rest"
    using ex(2) by (auto simp: rest_def takeWhile_eq_Nil_iff hd_append dropWhile_eq_self_iff)
  have ipt: "takeWhile is_digit (digits_str ip @ rest) = digits_str ip"
    by (simp add: takeWhile_digits [OF ip(2)] rest_nd)
  have r1: "dropWhile is_digit (digits_str ip @ rest) = rest"
    by (simp add: dropWhile_digits [OF ip(2)] rest_dw)
  have point: "(rest \<noteq> [] \<and> hd rest = ch CHR ''.'') \<longleftrightarrow> fp \<noteq> []"
    using ex(2) by (auto simp: rest_def)
  have e_nd: "takeWhile is_digit etxt = []" and e_dw: "dropWhile is_digit etxt = etxt"
    using ex(2) by (auto simp: takeWhile_eq_Nil_iff dropWhile_eq_self_iff)
  have fpt: "fp \<noteq> [] \<Longrightarrow> takeWhile is_digit (tl rest) = digits_str fp"
    by (simp add: rest_def takeWhile_digits [OF fp] e_nd)
  have r2: "fp \<noteq> [] \<Longrightarrow> dropWhile is_digit (tl rest) = etxt"
    by (simp add: rest_def dropWhile_digits [OF fp] e_dw)
  have r2': "fp = [] \<Longrightarrow> rest = etxt"
    by (simp add: rest_def)
  have lead: "\<not> (1 < length (digits_str ip) \<and> hd (digits_str ip) = ch CHR ''0'')"
    using ip hd_ip by (auto simp: length_digits_str hd_digits_str digit_char_eq_0)
  have vals: "map digit_val (digits_str ip @ digits_str fp) = ip @ fp"
    using digits_vals [OF ip(2)] digits_vals [OF fp] by simp
  have "num_of_literal t = Some (normalise neg (ip @ fp) (int (length ip) + ex))"
  proof (cases "fp = []")
    case True
    then show ?thesis
      unfolding num_of_literal_def Let_def neg t1 ipt r1 point
      using lead ip(1) ex(1) vals
      by (simp add: digits_str_Nil r2' length_digits_str digits_str_def)
  next
    case False
    then show ?thesis
      unfolding num_of_literal_def Let_def neg t1 ipt r1 point
      using lead ip(1) ex(1) vals
      by (simp add: digits_str_Nil fpt r2 length_digits_str)
  qed
  then show ?thesis by (simp add: t_def rest_def)
qed

lemma js_zero: "js ''0'' = digits_str [0]"
  by (simp add: js_def ch_def digits_str_def digit_char_def)

lemma replicate_zero: "replicate m (ch CHR ''0'') = digits_str (replicate m 0)"
  by (simp add: digits_str_def digit_char_def ch_def)

lemma num_roundtrip:
  assumes "proper_num (Fin neg ds n)"
  shows "num_of_literal (num_str (Fin neg ds n)) = Some (Fin neg ds n)"
proof (cases "ds = []")
  case True
  with assms have z: "\<not> neg" "n = 0" by simp_all
  have "num_of_literal ((if False then [ch CHR ''-''] else []) @ digits_str [0]
            @ (if [] = ([]::nat list) then [] else ch CHR ''.'' # digits_str []) @ [])
         = Some (normalise False ([0] @ []) (int (length [0::nat]) + 0))"
    by (rule num_of_literal_parts) simp_all
  moreover have "normalise False [0] 1 = Fin False [] 0"
    using normalise_zero [of False 1 1] by simp
  ultimately show ?thesis using True z by (simp add: js_zero)
next
  case False
  with assms have p: "hd ds \<noteq> 0" "last ds \<noteq> 0" "list_all (\<lambda>d. d < 10) ds" by simp_all
  define k where "k = int (length ds)"
  define sign where "sign = (if neg then [ch CHR ''-''] else [])"
  have kpos: "0 < k" using False by (simp add: k_def)
  have str: "num_str (Fin neg ds n) = sign @ pos_str ds n"
    using False by (simp add: sign_def)
  consider (a) "k \<le> n" "n \<le> 21" | (b) "\<not> k \<le> n" "0 < n" "n \<le> 21"
    | (c) "- 6 < n" "n \<le> 0" | (d) "\<not> (k \<le> n \<and> n \<le> 21)" "\<not> (0 < n \<and> n \<le> 21)" "\<not> (- 6 < n \<and> n \<le> 0)"
    by linarith
  then show ?thesis
  proof cases
    case a
    define m where "m = nat (n - k)"
    have ptxt: "pos_str ds n = digits_str (ds @ replicate m 0)"
      using a by (simp add: pos_str_def Let_def k_def [symmetric] m_def replicate_zero digits_str_append)
    have "num_of_literal (sign @ digits_str (ds @ replicate m 0)
            @ (if [] = ([]::nat list) then [] else ch CHR ''.'' # digits_str []) @ [])
         = Some (normalise neg ((ds @ replicate m 0) @ []) (int (length (ds @ replicate m 0)) + 0))"
      unfolding sign_def
      by (rule num_of_literal_parts) (use False p in \<open>auto simp: list_all_iff\<close>)
    moreover have "normalise neg (ds @ replicate m 0) (int (length (ds @ replicate m 0)))
        = Fin neg ds (int (length (ds @ replicate m 0)))"
      using normalise_padded [OF False p(1,2), of neg 0 m] by simp
    moreover have "int (length (ds @ replicate m 0)) = n"
      using a by (simp add: m_def k_def)
    ultimately show ?thesis unfolding str ptxt by simp
  next
    case b
    define ip where "ip = take (nat n) ds"
    define fp where "fp = drop (nat n) ds"
    have len: "nat n < length ds" using b by (simp add: k_def)
    have ipn: "ip \<noteq> []" using b False by (simp add: ip_def)
    have fpn: "fp \<noteq> []" using len by (simp add: fp_def)
    have hd_ip: "hd ip = hd ds" using b False by (simp add: ip_def)
    have ptxt: "pos_str ds n = digits_str ip @ (if fp = [] then [] else ch CHR ''.'' # digits_str fp) @ []"
      using b fpn by (simp add: pos_str_def Let_def k_def [symmetric] ip_def fp_def)
    have all: "list_all (\<lambda>d. d < 10) ip" "list_all (\<lambda>d. d < 10) fp"
      using p(3) by (auto simp: ip_def fp_def list_all_iff dest: in_set_takeD in_set_dropD)
    have "num_of_literal (sign @ digits_str ip
            @ (if fp = [] then [] else ch CHR ''.'' # digits_str fp) @ [])
         = Some (normalise neg (ip @ fp) (int (length ip) + 0))"
      unfolding sign_def
      by (rule num_of_literal_parts) (use ipn all hd_ip p in simp_all)
    moreover have "ip @ fp = ds" by (simp add: ip_def fp_def)
    moreover have "int (length ip) = n" using len b by (simp add: ip_def)
    moreover have "normalise neg ds n = Fin neg ds n"
      using normalise_padded [OF False p(1,2), of neg 0 0 n] by simp
    ultimately show ?thesis unfolding str ptxt by simp
  next
    case c
    define z where "z = nat (- n)"
    define fp where "fp = replicate z 0 @ ds"
    have fpn: "fp \<noteq> []" using False by (simp add: fp_def)
    have nk: "\<not> (k \<le> n \<and> n \<le> 21)" "\<not> (0 < n \<and> n \<le> 21)" using c kpos by simp_all
    have "js ''0.'' = digits_str [0] @ [ch CHR ''.'']"
      by (simp add: js_def ch_def digits_str_def digit_char_def)
    then have ptxt: "pos_str ds n
        = digits_str [0] @ (if fp = [] then [] else ch CHR ''.'' # digits_str fp) @ []"
      using c nk fpn
      by (simp add: pos_str_def Let_def k_def [symmetric] fp_def z_def replicate_zero
            digits_str_append)
    have all: "list_all (\<lambda>d. d < 10) fp"
      using p(3) by (auto simp: fp_def list_all_iff)
    have "num_of_literal (sign @ digits_str [0]
            @ (if fp = [] then [] else ch CHR ''.'' # digits_str fp) @ [])
         = Some (normalise neg ([0] @ fp) (int (length [0::nat]) + 0))"
      unfolding sign_def
      by (rule num_of_literal_parts) (use all in simp_all)
    moreover have "normalise neg ([0] @ fp) 1 = Fin neg ds (1 - int (Suc z))"
      using normalise_padded [OF False p(1,2), of neg "Suc z" 0 1] by (simp add: fp_def)
    moreover have "1 - int (Suc z) = n" using c by (simp add: z_def)
    ultimately show ?thesis unfolding str ptxt by simp
  next
    case d
    define fp where "fp = drop 1 ds"
    define etxt where "etxt = ch CHR ''e'' # (if 0 \<le> n - 1 then ch CHR ''+'' else ch CHR ''-'')
        # nat_str (nat \<bar>n - 1\<bar>)"
    have k1: "k = 1 \<longleftrightarrow> fp = []"
      using False by (cases ds) (auto simp: k_def fp_def)
    have e1: "pos_str ds n
        = digits_str (take 1 ds)
          @ (if k = 1 then [] else [ch CHR ''.''] @ digits_str (drop 1 ds))
          @ [ch CHR ''e'', if 0 \<le> n - 1 then ch CHR ''+'' else ch CHR ''-'']
          @ nat_str (nat \<bar>n - 1\<bar>)"
      using d by (simp only: pos_str_def Let_def k_def [symmetric] if_False)
    have ptxt: "pos_str ds n
        = digits_str (take 1 ds) @ (if fp = [] then [] else ch CHR ''.'' # digits_str fp) @ etxt"
      unfolding e1 k1 by (simp add: fp_def etxt_def)
    have t1: "take 1 ds = [hd ds]" using False by (cases ds) simp_all
    have ex: "exponent etxt = Some (n - 1)"
      unfolding etxt_def by (rule exponent_text)
    have hd_e: "etxt = [] \<or> hd etxt = ch CHR ''e''"
      by (simp add: etxt_def)
    have all: "list_all (\<lambda>d. d < 10) (take 1 ds)" "list_all (\<lambda>d. d < 10) fp"
      using p(3) by (auto simp: fp_def list_all_iff dest: in_set_takeD in_set_dropD)
    have "num_of_literal (sign @ digits_str (take 1 ds)
            @ (if fp = [] then [] else ch CHR ''.'' # digits_str fp) @ etxt)
         = Some (normalise neg (take 1 ds @ fp) (int (length (take 1 ds)) + (n - 1)))"
      unfolding sign_def
      by (rule num_of_literal_parts [OF _ all(1) _ all(2) ex hd_e]) (simp_all only: t1, simp_all)
    moreover have "take 1 ds @ fp = ds" by (simp add: fp_def)
    moreover have "int (length (take 1 ds)) + (n - 1) = n" unfolding t1 by simp
    moreover have "normalise neg ds n = Fin neg ds n"
      using normalise_padded [OF False p(1,2), of neg 0 0 n] by simp
    ultimately show ?thesis unfolding str ptxt by simp
  qed
qed

lemma numchar_simps [simp]:
  "is_numchar (ch CHR ''.'')" "is_numchar (ch CHR ''e'')" "is_numchar (ch CHR ''-'')"
  "is_numchar (ch CHR ''+'')" "is_numchar (ch CHR ''0'')"
  by (simp_all add: is_numchar_def is_digit_iff unat_ch)

lemma digits_numchar: "list_all (\<lambda>d. d < 10) ds \<Longrightarrow> list_all is_numchar (digits_str ds)"
  using digits_all [of ds] by (auto simp: list_all_iff is_numchar_def)

lemma nat_str_numchar: "list_all is_numchar (nat_str m)"
  by (simp add: nat_str_def digits_numchar dec_all)

lemma pos_str_numchar:
  assumes "list_all (\<lambda>d. d < 10) ds"
  shows "list_all is_numchar (pos_str ds n)"
proof -
  have "list_all (\<lambda>d. d < 10) (take m ds)" "list_all (\<lambda>d. d < 10) (drop m ds)" for m
    using assms by (auto simp: list_all_iff dest: in_set_takeD in_set_dropD)
  then have d: "list_all is_numchar (digits_str (take m ds))"
    "list_all is_numchar (digits_str (drop m ds))" for m
    by (simp_all add: digits_numchar)
  have r: "list_all is_numchar (replicate m (ch CHR ''0''))" for m
    by (simp add: list_all_iff)
  show ?thesis
    using assms
    by (simp add: pos_str_def Let_def digits_numchar nat_str_numchar js_def d r)
qed

lemma pos_str_hd:
  assumes "ds \<noteq> []" and "list_all (\<lambda>d. d < 10) ds"
  shows "pos_str ds n \<noteq> [] \<and> is_digit (hd (pos_str ds n))"
proof -
  have h: "hd ds < 10" using assms by (cases ds) simp_all
  have a: "is_digit (hd (digits_str ds))"
    using assms(1) h by (simp add: hd_digits_str is_digit_digit_char)
  have b: "0 < n \<Longrightarrow> take (nat n) ds \<noteq> [] \<and> hd (take (nat n) ds) = hd ds"
    using assms(1) by (cases ds; cases "nat n") simp_all
  have c: "take 1 ds \<noteq> [] \<and> hd (take 1 ds) = hd ds"
    using assms(1) by (cases ds) simp_all
  have z: "is_digit (ch CHR ''0'')" by (simp add: is_digit_iff unat_ch)
  show ?thesis
    using assms(1) a b c z h
    by (auto simp: pos_str_def Let_def hd_append digits_str_Nil hd_digits_str js_def
          is_digit_digit_char)
qed

lemma num_str_shape:
  assumes "proper_num x" and "is_finite x"
  shows "\<exists>c cs. num_str x = c # cs \<and> (c = ch CHR ''-'' \<or> is_digit c) \<and> list_all is_numchar cs"
proof -
  from assms(2) obtain neg ds n where x: "x = Fin neg ds n" by (cases x) auto
  show ?thesis
  proof (cases "ds = []")
    case True
    then show ?thesis by (simp add: x js_def is_digit_iff unat_ch)
  next
    case False
    with assms(1) have all: "list_all (\<lambda>d. d < 10) ds" by (simp add: x)
    from pos_str_hd [OF False all, of n] obtain c cs where p: "pos_str ds n = c # cs" "is_digit c"
      by (cases "pos_str ds n") auto
    from pos_str_numchar [OF all, of n] p have "list_all is_numchar cs" "is_numchar c" by simp_all
    with p False show ?thesis by (simp add: x)
  qed
qed

lemma lex_number_start:
  assumes "c = ch CHR ''-'' \<or> is_digit c"
  shows "lex (c # cs) =
     (case num_of_literal (c # takeWhile is_numchar cs) of
        None \<Rightarrow> None
      | Some x \<Rightarrow> ocons (TNum x) (lex (dropWhile is_numchar cs)))"
  using assms
proof
  assume "c = ch CHR ''-''"
  then show ?thesis by (simp add: lex.simps is_ws_def ch_def)
next
  assume d: "is_digit c"
  then have "\<not> is_ws c" "c \<noteq> ch CHR ''{''" "c \<noteq> ch CHR ''}''" "c \<noteq> ch CHR ''[''"
    "c \<noteq> ch CHR '']''" "c \<noteq> ch CHR '':''" "c \<noteq> ch CHR '',''" "c \<noteq> 0x22"
    by (auto simp: is_ws_def is_digit_iff unat_ch ch_def)
  with d show ?thesis by (simp add: lex.simps)
qed

lemma lex_number:
  assumes "proper_num x" and "is_finite x" and "rest = [] \<or> \<not> is_numchar (hd rest)"
  shows "lex (num_str x @ rest) = ocons (TNum x) (lex rest)"
proof -
  from num_str_shape [OF assms(1,2)] obtain c cs where s: "num_str x = c # cs"
    and c: "c = ch CHR ''-'' \<or> is_digit c" and cs: "list_all is_numchar cs"
    by blast
  have r: "takeWhile is_numchar rest = []" "dropWhile is_numchar rest = rest"
    using assms(3) by (auto simp: takeWhile_eq_Nil_iff dropWhile_eq_self_iff)
  have tw: "takeWhile is_numchar (cs @ rest) = cs"
    using cs by (subst takeWhile_append2) (auto simp: list_all_iff r)
  have dw: "dropWhile is_numchar (cs @ rest) = rest"
    using cs by (subst dropWhile_append2) (auto simp: list_all_iff r)
  from assms(2) obtain neg ds n where x: "x = Fin neg ds n" by (cases x) auto
  have "num_of_literal (c # cs) = Some x"
    using num_roundtrip [of neg ds n] assms(1) unfolding x [symmetric] s by simp
  then show ?thesis
    unfolding s by (simp add: lex_number_start [OF c] tw dw)
qed


section \<open>The tokens of the text of a value\<close>

lemma lex_ws: "is_ws c \<Longrightarrow> lex (c # cs) = lex cs"
  by (simp add: lex.simps)

lemma lex_spaces: "list_all is_ws w \<Longrightarrow> lex (w @ r) = lex r"
  by (induction w) (simp_all add: lex_ws)

lemma lex_punct:
  "lex (ch CHR ''{'' # cs) = ocons TLBrace (lex cs)"
  "lex (ch CHR ''}'' # cs) = ocons TRBrace (lex cs)"
  "lex (ch CHR ''['' # cs) = ocons TLBracket (lex cs)"
  "lex (ch CHR '']'' # cs) = ocons TRBracket (lex cs)"
  "lex (ch CHR '':'' # cs) = ocons TColon (lex cs)"
  "lex (ch CHR '','' # cs) = ocons TComma (lex cs)"
  by (simp_all add: lex.simps is_ws_def ch_def)

lemma lex_literal:
  "lex (js ''null'' @ r) = ocons TNull (lex r)"
  "lex (js ''true'' @ r) = ocons TTrue (lex r)"
  "lex (js ''false'' @ r) = ocons TFalse (lex r)"
  by (simp_all add: lex.simps is_ws_def js_def ch_def is_digit_def)

lemma join_Cons: "join sep (p # ps) = (if ps = [] then p else p @ sep @ join sep ps)"
  by (cases ps) simp_all

lemma ser_None: "ser gap ind v = None \<longleftrightarrow> v = JUndefined"
  by (cases v) simp_all

lemma ser_elems_Nil: "ser_elems gap ind xs = [] \<longleftrightarrow> xs = []"
  by (cases xs) simp_all

lemma clean_elems_Nil: "clean_elems xs = [] \<longleftrightarrow> xs = []"
  by (cases xs) simp_all

lemma ser_members_Nil: "ser_members gap ind kvs = [] \<longleftrightarrow> clean_members kvs = []"
proof (induction kvs)
  case Nil
  then show ?case by simp
next
  case (Cons kv kvs)
  obtain k v where "kv = (k, v)" by (cases kv)
  with Cons show ?case by (cases "ser gap ind v") (auto simp: ser_None)
qed

lemma toks_more_tl: "ms \<noteq> [] \<Longrightarrow> TComma # tl (toks_more ms) = toks_more ms"
  by (cases ms) auto

lemma toks_object: "toks (JObj ms) = TLBrace # tl (toks_more ms) @ [TRBrace]"
  by (cases ms) auto

lemma map_option_ocons: "map_option ((@) xs) (ocons y r) = map_option ((@) (xs @ [y])) r"
  by (cases r) simp_all

lemma map_option_append:
  "map_option ((@) xs) (map_option ((@) ys) r) = map_option ((@) (xs @ ys)) r"
  by (cases r) simp_all

lemma map_option_Nil: "map_option ((@) []) r = r"
  by (cases r) simp_all

lemma not_numchar [simp]:
  "\<not> is_numchar (ch CHR '','')" "\<not> is_numchar (ch CHR '']'')" "\<not> is_numchar (ch CHR ''}'')"
  "\<not> is_numchar 0x0A"
  by (simp_all add: is_numchar_def is_digit_def ch_def)

lemma ws_simps [simp]: "is_ws 0x0A" "is_ws (ch CHR '' '')"
  by (simp_all add: is_ws_def ch_def)

lemma ocons_map: "ocons x r = map_option ((@) [x]) r"
  by (cases r) simp_all

lemma lex_wrap:
  assumes l: "\<And>cs. lex (l # cs) = ocons L (lex cs)"
    and r: "\<And>cs. lex (r # cs) = ocons R (lex cs)"
    and nr: "\<not> is_numchar r"
    and gap: "list_all is_ws gap" and ind: "list_all is_ws ind"
    and body: "\<And>w rest. list_all is_ws w \<Longrightarrow> rest = [] \<or> \<not> is_numchar (hd rest) \<Longrightarrow>
        lex (join (ch CHR '','' # w) parts @ rest) = map_option ((@) body) (lex rest)"
    and empty: "parts = [] \<Longrightarrow> body = []"
  shows "lex (wrap l r gap ind parts @ rest) = map_option ((@) (L # body @ [R])) (lex rest)"
proof (cases "parts = []")
  case True
  then show ?thesis
    by (cases "lex rest") (simp_all add: wrap_def l r empty)
next
  case False
  show ?thesis
  proof (cases "gap = []")
    case True
    have "lex (join [ch CHR '',''] parts @ r # rest) = map_option ((@) body) (lex (r # rest))"
      using body [of "[]" "r # rest"] nr by simp
    then show ?thesis
      using False True by (cases "lex rest") (simp_all add: wrap_def l r)
  next
    case g: False
    have w: "list_all is_ws (0x0A # ind @ gap)" using gap ind by simp
    have "lex (join (ch CHR '','' # 0x0A # ind @ gap) parts @ 0x0A # ind @ r # rest)
        = map_option ((@) body) (lex (0x0A # ind @ r # rest))"
      using body [OF w, of "0x0A # ind @ r # rest"] by simp
    moreover have "lex (0x0A # ind @ r # rest) = ocons R (lex rest)"
      using lex_spaces [of "0x0A # ind" "r # rest"] ind by (simp add: r)
    moreover have "lex (l # 0x0A # (ind @ gap)
          @ join (ch CHR '','' # 0x0A # ind @ gap) parts @ 0x0A # ind @ r # rest)
        = ocons L (lex (join (ch CHR '','' # 0x0A # ind @ gap) parts @ 0x0A # ind @ r # rest))"
      using lex_spaces [OF w, of "join (ch CHR '','' # 0x0A # ind @ gap) parts @ 0x0A # ind @ r # rest"]
      by (simp add: l)
    ultimately show ?thesis
      using False g by (cases "lex rest") (simp_all add: wrap_def)
  qed
qed

lemma lex_ser:
  shows "proper v \<Longrightarrow> list_all is_ws gap \<Longrightarrow> list_all is_ws ind \<Longrightarrow> ser gap ind v = Some t \<Longrightarrow>
      rest = [] \<or> \<not> is_numchar (hd rest) \<Longrightarrow>
      lex (t @ rest) = map_option ((@) (toks (clean v))) (lex rest)"
    and "proper_elems xs \<Longrightarrow> list_all is_ws gap \<Longrightarrow> list_all is_ws ind \<Longrightarrow> list_all is_ws w \<Longrightarrow>
      rest = [] \<or> \<not> is_numchar (hd rest) \<Longrightarrow>
      lex (join (ch CHR '','' # w) (ser_elems gap ind xs) @ rest)
        = map_option ((@) (toks_elems (clean_elems xs))) (lex rest)"
    and "proper_members kvs \<Longrightarrow> list_all is_ws gap \<Longrightarrow> list_all is_ws ind \<Longrightarrow> list_all is_ws w \<Longrightarrow>
      rest = [] \<or> \<not> is_numchar (hd rest) \<Longrightarrow>
      lex (join (ch CHR '','' # w) (ser_members gap ind kvs) @ rest)
        = map_option ((@) (tl (toks_more (clean_members kvs)))) (lex rest)"
proof (induction gap ind v and gap ind xs and gap ind kvs
       arbitrary: t rest and w rest and w rest
       rule: ser_ser_elems_ser_members.induct)
  case (1 gap ind)
  then show ?case by simp
next
  case (2 gap ind)
  from 2(4) have "t = js ''null''" by simp
  then show ?case by (cases "lex rest") (simp_all add: lex_literal)
next
  case (3 gap ind b)
  from 3(4) have "t = (if b then js ''true'' else js ''false'')" by simp
  then show ?case by (cases "lex rest"; cases b) (simp_all add: lex_literal)
next
  case (4 gap ind x)
  show ?case
  proof (cases "is_finite x")
    case True
    with 4(4) have t: "t = num_str x" by simp
    from 4(1) have "proper_num x" by simp
    from lex_number [OF this True 4(5)] show ?thesis
      using True by (cases "lex rest") (simp_all add: t)
  next
    case False
    with 4(4) have "t = js ''null''" by simp
    then show ?thesis using False by (cases "lex rest") (simp_all add: lex_literal)
  qed
next
  case (5 gap ind s)
  from 5(4) have "t = quote s" by simp
  then show ?case by (cases "lex rest") (simp_all add: lex_quote)
next
  case (6 gap ind xs)
  from 6(2) have p: "proper_elems xs" by simp
  have i: "list_all is_ws (ind @ gap)" using 6(3,4) by simp
  have "lex (wrap (ch CHR ''['') (ch CHR '']'') gap ind (ser_elems gap (ind @ gap) xs) @ rest)
      = map_option ((@) (TLBracket # toks_elems (clean_elems xs) @ [TRBracket])) (lex rest)"
    by (rule lex_wrap [OF lex_punct(3) lex_punct(4) _ 6(3,4)])
       (simp_all add: 6(1) [OF p 6(3) i] ser_elems_Nil)
  with 6(5) show ?case by (cases "lex rest") auto
next
  case (7 gap ind kvs)
  from 7(2) have p: "proper_members kvs" by simp
  have i: "list_all is_ws (ind @ gap)" using 7(3,4) by simp
  have "lex (wrap (ch CHR ''{'') (ch CHR ''}'') gap ind (ser_members gap (ind @ gap) kvs) @ rest)
      = map_option ((@) (TLBrace # tl (toks_more (clean_members kvs)) @ [TRBrace])) (lex rest)"
    by (rule lex_wrap [OF lex_punct(1) lex_punct(2) _ 7(3,4)])
       (simp_all add: 7(1) [OF p 7(3) i] ser_members_Nil)
  with 7(5) show ?case by (cases "lex rest") (auto simp: toks_object)
next
  case (8 gap ind)
  then show ?case by (cases "lex rest") simp_all
next
  case (9 gap ind x xs)
  from 9(3) have px: "proper x" and pxs: "proper_elems xs" by simp_all
  define t where "t = (case ser gap ind x of None \<Rightarrow> js ''null'' | Some t \<Rightarrow> t)"
  define c where "c = (if x = JUndefined then JNull else clean x)"
  have head: "lex (t @ r) = map_option ((@) (toks c)) (lex r)"
    if "r = [] \<or> \<not> is_numchar (hd r)" for r
  proof (cases "x = JUndefined")
    case True
    then show ?thesis by (cases "lex r") (simp_all add: t_def c_def lex_literal)
  next
    case False
    then obtain u where u: "ser gap ind x = Some u" by (cases "ser gap ind x") (auto simp: ser_None)
    from 9(1) [OF px 9(4,5) u that] show ?thesis using False by (simp add: t_def c_def u)
  qed
  show ?case
  proof (cases "xs = []")
    case True
    with head [OF 9(7)] show ?thesis by (cases "lex rest") (simp_all add: t_def c_def)
  next
    case False
    then obtain y ys where ys: "xs = y # ys" by (cases xs) auto
    have "lex (t @ (ch CHR '','' # w) @ join (ch CHR '','' # w) (ser_elems gap ind xs) @ rest)
        = map_option ((@) (toks c)) (lex ((ch CHR '','' # w) @ join (ch CHR '','' # w) (ser_elems gap ind xs) @ rest))"
      by (rule head) simp
    moreover have "lex ((ch CHR '','' # w) @ join (ch CHR '','' # w) (ser_elems gap ind xs) @ rest)
        = ocons TComma (lex (join (ch CHR '','' # w) (ser_elems gap ind xs) @ rest))"
      using lex_spaces [OF 9(6)] by (simp add: lex_punct)
    moreover note 9(2) [OF pxs 9(4,5,6,7)]
    ultimately show ?thesis
      using False
      by (cases "lex rest")
         (simp_all add: join_Cons ser_elems_Nil t_def [symmetric] c_def [symmetric] ys)
  qed
next
  case (10 gap ind)
  then show ?case by (cases "lex rest") simp_all
next
  case (11 gap ind k v kvs)
  from 11(4) have pv: "proper v" and pk: "proper_members kvs" by simp_all
  show ?case
  proof (cases "ser gap ind v")
    case None
    then have v: "v = JUndefined" by (simp add: ser_None)
    from 11(2) [OF None pk 11(5,6,7,8)] show ?thesis by (simp add: None v)
  next
    case (Some u)
    then have v: "v \<noteq> JUndefined" by (auto simp: ser_None)
    note IH = 11(3) [OF Some pk 11(5,6,7,8)]
    define sp where "sp = (if gap = [] then [] else [ch CHR '' ''])"
    have sp: "list_all is_ws sp" by (simp add: sp_def)
    have head: "lex ((quote k @ [ch CHR '':''] @ sp @ u) @ r)
        = map_option ((@) (TStr k # TColon # toks (clean v))) (lex r)"
      if "r = [] \<or> \<not> is_numchar (hd r)" for r
    proof -
      have "lex ((quote k @ [ch CHR '':''] @ sp @ u) @ r)
          = ocons (TStr k) (ocons TColon (lex (u @ r)))"
        using lex_spaces [OF sp, of "u @ r"] by (simp add: lex_quote lex_punct)
      with 11(1) [OF pv 11(5,6) Some that] show ?thesis
        by (cases "lex r") simp_all
    qed
    show ?thesis
    proof (cases "clean_members kvs = []")
      case True
      with head [OF 11(8)] show ?thesis
        by (cases "lex rest") (simp_all add: Some v sp_def ser_members_Nil [THEN iffD2])
    next
      case False
      then have ne: "ser_members gap ind kvs \<noteq> []" by (simp add: ser_members_Nil)
      have "lex ((quote k @ [ch CHR '':''] @ sp @ u)
            @ (ch CHR '','' # w) @ join (ch CHR '','' # w) (ser_members gap ind kvs) @ rest)
          = map_option ((@) (TStr k # TColon # toks (clean v)))
              (lex ((ch CHR '','' # w) @ join (ch CHR '','' # w) (ser_members gap ind kvs) @ rest))"
        by (rule head) simp
      moreover have "lex ((ch CHR '','' # w) @ join (ch CHR '','' # w) (ser_members gap ind kvs) @ rest)
          = ocons TComma (lex (join (ch CHR '','' # w) (ser_members gap ind kvs) @ rest))"
        using lex_spaces [OF 11(7)] by (simp add: lex_punct)
      ultimately show ?thesis
        using IH ne False toks_more_tl [OF False]
        by (cases "lex rest") (simp_all add: Some v join_Cons sp_def [symmetric])
    qed
  qed
qed


section \<open>Parsing the tokens of a value\<close>

lemma proper_elems_iff: "proper_elems xs \<longleftrightarrow> (\<forall>x \<in> set xs. proper x)"
  by (induction xs) auto

lemma proper_members_iff: "proper_members kvs \<longleftrightarrow> (\<forall>kv \<in> set kvs. proper (snd kv))"
  by (induction kvs) auto

lemma clean_elems_map:
  "clean_elems xs = map (\<lambda>x. if x = JUndefined then JNull else clean x) xs"
  by (induction xs) auto

lemma clean_members_set:
  "(k, c) \<in> set (clean_members kvs) \<Longrightarrow> \<exists>v. (k, v) \<in> set kvs \<and> v \<noteq> JUndefined \<and> c = clean v"
proof (induction kvs)
  case Nil
  then show ?case by simp
next
  case (Cons kv kvs)
  obtain k' v' where kv: "kv = (k', v')" by (cases kv)
  show ?case
  proof (cases "v' = JUndefined")
    case True
    with Cons kv show ?thesis by auto
  next
    case False
    with Cons.prems kv have "(k, c) = (k', clean v') \<or> (k, c) \<in> set (clean_members kvs)"
      by simp
    then show ?thesis
    proof
      assume "(k, c) = (k', clean v')"
      with False kv show ?thesis by auto
    next
      assume "(k, c) \<in> set (clean_members kvs)"
      from Cons.IH [OF this] show ?thesis by auto
    qed
  qed
qed

lemma clean_members_keys: "set (map fst (clean_members kvs)) \<subseteq> set (map fst kvs)"
proof
  fix k assume "k \<in> set (map fst (clean_members kvs))"
  then obtain c where "(k, c) \<in> set (clean_members kvs)" by auto
  from clean_members_set [OF this] show "k \<in> set (map fst kvs)" by force
qed

lemma clean_members_distinct:
  "distinct (map fst kvs) \<Longrightarrow> distinct (map fst (clean_members kvs))"
proof (induction kvs)
  case Nil
  then show ?case by simp
next
  case (Cons kv kvs)
  obtain k v where kv: "kv = (k, v)" by (cases kv)
  from Cons.prems have "k \<notin> set (map fst kvs)" by (simp add: kv)
  with clean_members_keys [of kvs] have "k \<notin> set (map fst (clean_members kvs))" by blast
  with Cons show ?case by (simp add: kv)
qed

lemma clean_defined: "v \<noteq> JUndefined \<Longrightarrow> clean v \<noteq> JUndefined"
  by (cases v) auto

lemma toks_start:
  "c \<noteq> JUndefined \<Longrightarrow> \<exists>t r. toks c = t # r \<and> t \<noteq> TRBracket \<and> t \<noteq> TRBrace"
proof (cases c)
  case (JObj kvs)
  then show ?thesis by (cases kvs) auto
qed auto

lemma parse_elems:
  assumes "cs \<noteq> []"
    and "\<forall>c \<in> set cs. \<forall>stk ts. parse_value stk (toks c @ ts) = reduce stk c ts"
  shows "parse_value (FArr acc # stk) (toks_elems cs @ TRBracket # ts)
         = reduce stk (JArr (rev acc @ cs)) ts"
  using assms
proof (induction cs arbitrary: acc rule: list_nonempty_induct)
  case (single c)
  then show ?case by simp
next
  case (cons c cs)
  from cons.hyps obtain d ds where ds: "cs = d # ds" by (cases cs) auto
  have "parse_value (FArr acc # stk) (toks_elems (c # cs) @ TRBracket # ts)
      = parse_value (FArr (c # acc) # stk) (toks_elems cs @ TRBracket # ts)"
    using cons.prems by (simp add: ds)
  also have "\<dots> = reduce stk (JArr (rev (c # acc) @ cs)) ts"
    using cons.prems by (intro cons.IH) simp
  finally show ?case by simp
qed

lemma parse_members:
  assumes "\<forall>kv \<in> set ((k, c) # ms). \<forall>stk ts. parse_value stk (toks (snd kv) @ ts) = reduce stk (snd kv) ts"
  shows "parse_value (FObj acc k # stk) (toks c @ toks_more ms @ TRBrace # ts)
         = reduce stk (JObj (assign acc ((k, c) # ms))) ts"
  using assms
proof (induction ms arbitrary: acc k c)
  case Nil
  then show ?case by (simp add: assign_def)
next
  case (Cons m ms)
  obtain k' c' where m: "m = (k', c')" by (cases m)
  have "parse_value (FObj acc k # stk) (toks c @ toks_more (m # ms) @ TRBrace # ts)
      = parse_value (FObj (AList.update k c acc) k' # stk) (toks c' @ toks_more ms @ TRBrace # ts)"
    using Cons.prems by (simp add: m)
  also have "\<dots> = reduce stk (JObj (assign (AList.update k c acc) ((k', c') # ms))) ts"
    using Cons.prems by (intro Cons.IH) (simp add: m)
  finally show ?case by (simp add: assign_def m)
qed

lemma parse_toks:
  "proper w \<Longrightarrow> w \<noteq> JUndefined \<Longrightarrow> parse_value stk (toks (clean w) @ ts) = reduce stk (clean w) ts"
proof (induction w arbitrary: stk ts)
  case JUndefined
  then show ?case by simp
next
  case JNull
  then show ?case by simp
next
  case (JBool b)
  then show ?case by simp
next
  case (JNum x)
  then show ?case by simp
next
  case (JStr s)
  then show ?case by simp
next
  case (JArr xs)
  show ?case
  proof (cases "xs = []")
    case True
    then show ?thesis by simp
  next
    case False
    define cs where "cs = clean_elems xs"
    have ne: "cs \<noteq> []" using False by (simp add: cs_def clean_elems_Nil)
    have each: "\<forall>c \<in> set cs. \<forall>stk ts. parse_value stk (toks c @ ts) = reduce stk c ts"
    proof
      fix c assume "c \<in> set cs"
      then obtain x where x: "x \<in> set xs" "c = (if x = JUndefined then JNull else clean x)"
        by (auto simp: cs_def clean_elems_map)
      show "\<forall>stk ts. parse_value stk (toks c @ ts) = reduce stk c ts"
      proof (cases "x = JUndefined")
        case True
        with x show ?thesis by simp
      next
        case False
        from JArr.prems(1) x(1) have "proper x" by (simp add: proper_elems_iff)
        with JArr.IH [OF x(1) _ False] x(2) False show ?thesis by simp
      qed
    qed
    obtain c cs' where c: "cs = c # cs'" using ne by (cases cs) auto
    have "\<forall>c \<in> set cs. c \<noteq> JUndefined"
      using clean_defined by (fastforce simp: cs_def clean_elems_map)
    then have "c \<noteq> JUndefined" by (simp add: c)
    from toks_start [OF this] obtain t r where t: "toks c = t # r" "t \<noteq> TRBracket" by blast
    have hd: "\<exists>t r. toks_elems cs @ TRBracket # ts = t # r \<and> t \<noteq> TRBracket"
      using t by (cases cs') (auto simp: c)
    then obtain t' r' where t': "toks_elems cs @ TRBracket # ts = t' # r'" "t' \<noteq> TRBracket"
      by blast
    have "parse_value stk (TLBracket # toks_elems cs @ TRBracket # ts)
        = parse_value (FArr [] # stk) (toks_elems cs @ TRBracket # ts)"
      unfolding t'(1) using t'(2) by (cases t') simp_all
    also have "\<dots> = reduce stk (JArr (rev [] @ cs)) ts"
      by (rule parse_elems [OF ne each])
    finally show ?thesis by (simp add: cs_def)
  qed
next
  case (JObj kvs)
  define ms where "ms = clean_members kvs"
  from JObj.prems(1) have d: "distinct (map fst ms)"
    by (simp add: ms_def clean_members_distinct)
  have each: "\<forall>kv \<in> set ms. \<forall>stk ts. parse_value stk (toks (snd kv) @ ts) = reduce stk (snd kv) ts"
  proof
    fix kv assume kv: "kv \<in> set ms"
    obtain k c where kc0: "kv = (k, c)" by (cases kv)
    with kv have kc: "kv = (k, c)" "(k, c) \<in> set (clean_members kvs)"
      by (simp_all add: ms_def)
    from clean_members_set [OF kc(2)] obtain v where v: "(k, v) \<in> set kvs" "v \<noteq> JUndefined"
      "c = clean v" by blast
    from JObj.prems(1) v(1) have "proper v" by (auto simp: proper_members_iff)
    from JObj.IH [OF v(1) _ this v(2)] v(3) kc(1)
    show "\<forall>stk ts. parse_value stk (toks (snd kv) @ ts) = reduce stk (snd kv) ts"
      by simp
  qed
  show ?case
  proof (cases ms)
    case Nil
    then show ?thesis by (simp add: ms_def [symmetric])
  next
    case (Cons m ms')
    obtain k c where m: "m = (k, c)" by (cases m)
    have "parse_value stk (toks (JObj ms) @ ts)
        = parse_value (FObj [] k # stk) (toks c @ toks_more ms' @ TRBrace # ts)"
      by (simp add: Cons m)
    also have "\<dots> = reduce stk (JObj (assign [] ((k, c) # ms'))) ts"
      using each by (intro parse_members) (simp add: Cons m)
    also have "assign [] ((k, c) # ms') = ms"
      using assign_Nil_distinct [OF d] by (simp only: Cons m)
    finally show ?thesis by (simp add: ms_def)
  qed
qed

theorem parse_stringify:
  assumes "proper v" and "v \<noteq> JUndefined" and "list_all is_ws gap"
  shows "JSON_parse (JSON_stringify gap v) = Inr (clean v)"
proof -
  from assms(2) obtain t where t: "ser gap [] v = Some t"
    by (cases "ser gap [] v") (auto simp: ser_None)
  from lex_ser(1) [OF assms(1,3) _ t, of "[]"]
  have "lex t = Some (toks (clean v))" by (simp add: lex.simps)
  moreover from parse_toks [OF assms(1,2), of "[]" "[]"]
  have "parse_value [] (toks (clean v)) = Some (clean v)" by simp
  ultimately show ?thesis by (simp add: JSON_parse_def JSON_stringify_def t)
qed


section \<open>Importing and exporting\<close>

lemma clean_representable:
  "representable v \<Longrightarrow> clean v = without_undefined v"
  "representable_elems xs \<Longrightarrow> clean_elems xs = without_undefined_elems xs"
  "representable_members kvs \<Longrightarrow> clean_members kvs = without_undefined_members kvs"
  by (induction v and xs and kvs rule: clean_clean_elems_clean_members.induct) auto

lemma get_prop_field: "\<not> is_nullish v \<Longrightarrow> get_prop v k = Inr (field v k)"
  by (cases v) (simp_all add: field_def)

lemma importAll_parsed:
  assumes "JSON_parse t = Inr v" and "\<not> is_nullish v"
  shows "importAll t s
    = (None, save (s\<lparr>customers := coalesce (field v (js ''customers'')) (JArr []),
                      technicians := coalesce (field v (js ''technicians'')) (JArr []),
                      devices := coalesce (field v (js ''devices'')) (JArr []),
                      tickets := coalesce (field v (js ''tickets'')) (JArr [])\<rparr>))"
  using assms
  by (simp add: importAll_def adopted_def get_prop_field save_def exportAll_def)

lemma gap_ws: "list_all is_ws (js ''  '')"
  by (simp add: js_def is_ws_def ch_def)

lemma field_clean_snapshot:
  "field (clean (snapshot a b c d)) (js ''customers'') = clean a"
  "field (clean (snapshot a b c d)) (js ''technicians'') = clean b"
  "field (clean (snapshot a b c d)) (js ''devices'') = clean c"
  "field (clean (snapshot a b c d)) (js ''tickets'') = clean d"
  by (simp_all add: snapshot_def field_def)

lemma importAll_exportAll:
  assumes "proper (customers s)" and "proper (technicians s)" and "proper (devices s)"
    and "proper (tickets s)"
  shows "importAll (exportAll s) s
    = (None, save (s\<lparr>customers := coalesce (clean (customers s)) (JArr []),
                      technicians := coalesce (clean (technicians s)) (JArr []),
                      devices := coalesce (clean (devices s)) (JArr []),
                      tickets := coalesce (clean (tickets s)) (JArr [])\<rparr>))"
proof -
  define v where "v = snapshot (customers s) (technicians s) (devices s) (tickets s)"
  have "proper v" using assms by (simp add: v_def snapshot_def)
  moreover have "v \<noteq> JUndefined" by (simp add: v_def snapshot_def)
  ultimately have "JSON_parse (exportAll s) = Inr (clean v)"
    unfolding exportAll_def v_def [symmetric] using gap_ws by (rule parse_stringify)
  moreover have "\<not> is_nullish (clean v)" by (simp add: v_def snapshot_def)
  ultimately have "importAll (exportAll s) s
    = (None, save (s\<lparr>customers := coalesce (field (clean v) (js ''customers'')) (JArr []),
                      technicians := coalesce (field (clean v) (js ''technicians'')) (JArr []),
                      devices := coalesce (field (clean v) (js ''devices'')) (JArr []),
                      tickets := coalesce (field (clean v) (js ''tickets'')) (JArr [])\<rparr>))"
    by (rule importAll_parsed)
  then show ?thesis unfolding v_def field_clean_snapshot .
qed

lemma coalesce_without_undefined:
  assumes "representable c" and "\<not> is_nullish c"
  shows "coalesce (clean c) (JArr []) = without_undefined c"
  using assms by (cases c) (simp_all add: coalesce_def clean_representable)

lemma lossy_tickets:
  "tickets lossy =
     JArr [JObj [(js ''id'', JStr (js ''k-1'')),
                 (js ''createdAt'', JStr (js ''2024-05-01T10:00:00.000Z'')),
                 (js ''updatedAt'', JStr (js ''2024-06-01T00:00:00.000Z'')),
                 (js ''customerId'', JStr (js ''c-1'')), (js ''deviceId'', JStr (js ''d-1'')),
                 (js ''problemDescription'',
                    JStr (js ''Won'' @ [0x27] @ js ''t boot, possible SSD failure'')),
                 (js ''status'', JStr (js ''Diagnosing'')),
                 (js ''technicianId'', JStr (js ''u-1'')),
                 (js ''estimatedCost'', JNum PosInfinity),
                 (js ''notes'', JStr (js ''Run diagnostics, check SSD health''))]]"
  by (simp add: lossy_def demo0_def demo_def demo_ticket_def updateTicket_def after_def
        persist_def merged_def assign_def)

lemma lossy_others:
  "customers lossy = customers demo0" "technicians lossy = technicians demo0"
  "devices lossy = devices demo0"
  by (simp_all add: lossy_def demo0_def demo_def demo_ticket_def updateTicket_def after_def
        persist_def)

lemma lossy_proper:
  "proper (customers lossy)" "proper (technicians lossy)" "proper (devices lossy)"
  "proper (tickets lossy)"
  unfolding lossy_others lossy_tickets by (simp_all add: demo0_def demo_def)

text \<open>
  C1, as the code has it. In a store where no object has a property twice,
  \<^verbatim>\<open>importAll(exportAll())\<close> returns \<^verbatim>\<open>null\<close> and every collection comes back as \<open>clean\<close>
  makes it: a number that is not finite and an \<^verbatim>\<open>undefined\<close> array element have become
  \<^verbatim>\<open>null\<close> and a property holding \<^verbatim>\<open>undefined\<close> is left out; a collection that is
  \<^verbatim>\<open>undefined\<close>, \<^verbatim>\<open>null\<close> or a number that is not finite comes back as the empty array.
  When every collection is a value other than \<^verbatim>\<open>undefined\<close> and \<^verbatim>\<open>null\<close> that JSON text
  can represent, the collections come back as they were but for the properties holding
  \<^verbatim>\<open>undefined\<close>. Local storage holds the export of the new collections. The numbers of the
  model have no negative zero.
\<close>

theorem export_import_roundtrip:
  "(proper (customers s) \<and> proper (technicians s) \<and> proper (devices s) \<and> proper (tickets s) \<longrightarrow>
      importAll (exportAll s) s
        = (None, save (s\<lparr>customers := coalesce (clean (customers s)) (JArr []),
                          technicians := coalesce (clean (technicians s)) (JArr []),
                          devices := coalesce (clean (devices s)) (JArr []),
                          tickets := coalesce (clean (tickets s)) (JArr [])\<rparr>))) \<and>
   (exportable s \<longrightarrow>
      importAll (exportAll s) s
        = (None, save (s\<lparr>customers := without_undefined (customers s),
                          technicians := without_undefined (technicians s),
                          devices := without_undefined (devices s),
                          tickets := without_undefined (tickets s)\<rparr>)))"
proof (intro conjI impI)
  assume "proper (customers s) \<and> proper (technicians s) \<and> proper (devices s) \<and> proper (tickets s)"
  then show "importAll (exportAll s) s
        = (None, save (s\<lparr>customers := coalesce (clean (customers s)) (JArr []),
                          technicians := coalesce (clean (technicians s)) (JArr []),
                          devices := coalesce (clean (devices s)) (JArr []),
                          tickets := coalesce (clean (tickets s)) (JArr [])\<rparr>))"
    by (intro importAll_exportAll) simp_all
next
  assume "exportable s"
  then have p: "proper (customers s)" "proper (technicians s)" "proper (devices s)"
      "proper (tickets s)"
    and r: "representable (customers s)" "representable (technicians s)"
      "representable (devices s)" "representable (tickets s)"
    and n: "\<not> is_nullish (customers s)" "\<not> is_nullish (technicians s)"
      "\<not> is_nullish (devices s)" "\<not> is_nullish (tickets s)"
    by (simp_all add: exportable_def)
  show "importAll (exportAll s) s
        = (None, save (s\<lparr>customers := without_undefined (customers s),
                          technicians := without_undefined (technicians s),
                          devices := without_undefined (devices s),
                          tickets := without_undefined (tickets s)\<rparr>))"
    unfolding importAll_exportAll [OF p]
    unfolding coalesce_without_undefined [OF r(1) n(1)] coalesce_without_undefined [OF r(2) n(2)]
      coalesce_without_undefined [OF r(3) n(3)] coalesce_without_undefined [OF r(4) n(4)] ..
qed

theorem export_import_roundtrip_witness:
  "proper (customers lossy) \<and> proper (technicians lossy) \<and> proper (devices lossy) \<and>
   proper (tickets lossy) \<and>
   importAll (exportAll lossy) lossy
     = (None, save (lossy\<lparr>tickets :=
          JArr [JObj [(js ''id'', JStr (js ''k-1'')),
                      (js ''createdAt'', JStr (js ''2024-05-01T10:00:00.000Z'')),
                      (js ''updatedAt'', JStr (js ''2024-06-01T00:00:00.000Z'')),
                      (js ''customerId'', JStr (js ''c-1'')), (js ''deviceId'', JStr (js ''d-1'')),
                      (js ''problemDescription'',
                         JStr (js ''Won'' @ [0x27] @ js ''t boot, possible SSD failure'')),
                      (js ''status'', JStr (js ''Diagnosing'')),
                      (js ''technicianId'', JStr (js ''u-1'')),
                      (js ''estimatedCost'', JNull),
                      (js ''notes'', JStr (js ''Run diagnostics, check SSD health''))]]\<rparr>)) \<and>
   exportable demo0 \<and> importAll (exportAll demo0) demo0 = (None, save demo0)"
proof -
  have e: "exportable demo0"
    by (simp add: exportable_def demo0_def demo_def demo_ticket_def)
  have w: "without_undefined (customers demo0) = customers demo0"
    "without_undefined (technicians demo0) = technicians demo0"
    "without_undefined (devices demo0) = devices demo0"
    "without_undefined (tickets demo0) = tickets demo0"
    by (simp_all add: demo0_def demo_def demo_ticket_def)
  have c: "coalesce (clean (customers lossy)) (JArr []) = customers lossy"
    "coalesce (clean (technicians lossy)) (JArr []) = technicians lossy"
    "coalesce (clean (devices lossy)) (JArr []) = devices lossy"
    unfolding lossy_others by (simp_all add: demo0_def demo_def coalesce_def)
  have t: "coalesce (clean (tickets lossy)) (JArr []) =
          JArr [JObj [(js ''id'', JStr (js ''k-1'')),
                      (js ''createdAt'', JStr (js ''2024-05-01T10:00:00.000Z'')),
                      (js ''updatedAt'', JStr (js ''2024-06-01T00:00:00.000Z'')),
                      (js ''customerId'', JStr (js ''c-1'')), (js ''deviceId'', JStr (js ''d-1'')),
                      (js ''problemDescription'',
                         JStr (js ''Won'' @ [0x27] @ js ''t boot, possible SSD failure'')),
                      (js ''status'', JStr (js ''Diagnosing'')),
                      (js ''technicianId'', JStr (js ''u-1'')),
                      (js ''estimatedCost'', JNull),
                      (js ''notes'', JStr (js ''Run diagnostics, check SSD health''))]]"
    unfolding lossy_tickets by (simp add: coalesce_def)
  from export_import_roundtrip [of lossy] export_import_roundtrip [of demo0] e lossy_proper
  show ?thesis by (simp add: w c t)
qed

text \<open>
  The claim C1 is made for every store state. A ticket whose estimated cost is
  \<^verbatim>\<open>Infinity\<close> is exported with the cost \<^verbatim>\<open>null\<close>, and that is what the import reads.
\<close>

theorem roundtrip_loses_infinity:
  "fst (importAll (exportAll lossy) lossy) = None \<and>
   field (hd (elems (tickets lossy))) (js ''estimatedCost'') = JNum PosInfinity \<and>
   field (hd (elems (tickets (snd (importAll (exportAll lossy) lossy))))) (js ''estimatedCost'')
     = JNull"
proof -
  have c: "field (hd (elems (coalesce (clean (tickets lossy)) (JArr [])))) (js ''estimatedCost'')
      = JNull"
    by (simp add: lossy_tickets coalesce_def field_def)
  have "field (hd (elems (tickets lossy))) (js ''estimatedCost'') = JNum PosInfinity"
    by (simp add: lossy_tickets field_def)
  then show ?thesis
    unfolding importAll_exportAll [OF lossy_proper]
    by (simp add: c save_def)
qed

text \<open>
  C4. When the text is not valid JSON, \<^verbatim>\<open>JSON.parse\<close> throws a \<^verbatim>\<open>SyntaxError\<close>;
  \<^verbatim>\<open>importAll\<close> returns its message and the store, local storage included, is as before.
\<close>

theorem importAll_invalid:
  assumes "JSON_parse t = Inl e"
  shows "importAll t s = (Some e, s) \<and> e = SyntaxError"
  using assms
  by (auto simp: importAll_def JSON_parse_def split: option.splits)

theorem importAll_invalid_witness:
  "JSON_parse (js ''not json'') = Inl SyntaxError \<and>
   importAll (js ''not json'') demo0 = (Some SyntaxError, demo0)"
proof -
  have p: "JSON_parse (js ''not json'') = Inl SyntaxError" by code_simp
  from importAll_invalid [OF p, of demo0] p show ?thesis by simp
qed

lemma coalesce_given:
  assumes "case map_of kvs k of None \<Rightarrow> True | Some v \<Rightarrow> is_array v"
  shows "coalesce (field (JObj kvs) k) (JArr []) = given kvs k"
proof (cases "map_of kvs k")
  case None
  then show ?thesis by (simp add: field_def given_def coalesce_def)
next
  case (Some v)
  with assms have "is_array v" by simp
  then have "\<not> is_nullish v" by (cases v) simp_all
  with Some show ?thesis by (simp add: field_def given_def coalesce_def)
qed

text \<open>
  C5. When the text parses to an object in which each of the four keys is missing or holds
  an array, \<^verbatim>\<open>importAll\<close> returns \<^verbatim>\<open>null\<close>, every collection of the store is the parsed
  array, or empty where the key is missing, whatever the store held, and local storage
  holds the export of the new collections.
\<close>

theorem importAll_replaces:
  assumes "JSON_parse t = Inr (JObj kvs)" and "collection_shape kvs"
  shows "importAll t s
    = (None, save (s\<lparr>customers := given kvs (js ''customers''),
                      technicians := given kvs (js ''technicians''),
                      devices := given kvs (js ''devices''),
                      tickets := given kvs (js ''tickets'')\<rparr>))"
proof -
  have n: "\<not> is_nullish (JObj kvs)" by simp
  from assms(2) show ?thesis
    unfolding importAll_parsed [OF assms(1) n]
    by (simp add: collection_shape_def collection_keys_def coalesce_given)
qed

theorem importAll_replaces_witness:
  \<open>JSON_parse (js ''{"customers":[{"id":"c-9","name":"Ann"}],"tickets":[]}'')
     = Inr (JObj [(js ''customers'',
                    JArr [JObj [(js ''id'', JStr (js ''c-9'')), (js ''name'', JStr (js ''Ann''))]]),
                  (js ''tickets'', JArr [])]) \<and>
   collection_shape [(js ''customers'',
                    JArr [JObj [(js ''id'', JStr (js ''c-9'')), (js ''name'', JStr (js ''Ann''))]]),
                  (js ''tickets'', JArr [])] \<and>
   importAll (js ''{"customers":[{"id":"c-9","name":"Ann"}],"tickets":[]}'') demo0
     = (None, save (demo0\<lparr>customers :=
                      JArr [JObj [(js ''id'', JStr (js ''c-9'')), (js ''name'', JStr (js ''Ann''))]],
                    technicians := JArr [], devices := JArr [], tickets := JArr []\<rparr>))\<close>
proof -
  have p: \<open>JSON_parse (js ''{"customers":[{"id":"c-9","name":"Ann"}],"tickets":[]}'')
     = Inr (JObj [(js ''customers'',
                    JArr [JObj [(js ''id'', JStr (js ''c-9'')), (js ''name'', JStr (js ''Ann''))]]),
                  (js ''tickets'', JArr [])])\<close>
    by code_simp
  have c: "collection_shape [(js ''customers'',
                    JArr [JObj [(js ''id'', JStr (js ''c-9'')), (js ''name'', JStr (js ''Ann''))]]),
                  (js ''tickets'', JArr [])]"
    by (simp add: collection_shape_def collection_keys_def)
  from importAll_replaces [OF p c, of demo0] p c show ?thesis
    by (simp add: given_def)
qed

text \<open>
  C10. \<^verbatim>\<open>importAll\<close> reads the four keys from whatever the text parses to. When that is
  neither \<^verbatim>\<open>null\<close> nor an object with one of the four keys, it returns \<^verbatim>\<open>null\<close> and all
  four collections are empty; the text \<^verbatim>\<open>null\<close> makes the first read throw a
  \<^verbatim>\<open>TypeError\<close>, whose message is returned, and the store is as before.
\<close>

theorem importAll_non_object:
  assumes "JSON_parse t = Inr v" and "\<not> is_nullish v"
    and "\<forall>kvs. v = JObj kvs \<longrightarrow> (\<forall>k \<in> set collection_keys. map_of kvs k = None)"
  shows "importAll t s
      = (None, save (s\<lparr>customers := JArr [], technicians := JArr [], devices := JArr [],
                        tickets := JArr []\<rparr>))
    \<and> importAll (js ''null'') s = (Some TypeError, s)"
proof -
  have "field v k = JUndefined" if "k \<in> set collection_keys" for k
    using assms(3) that by (cases v) (simp_all add: field_def)
  then have "field v (js ''customers'') = JUndefined" "field v (js ''technicians'') = JUndefined"
    "field v (js ''devices'') = JUndefined" "field v (js ''tickets'') = JUndefined"
    by (simp_all add: collection_keys_def)
  then have "importAll t s
      = (None, save (s\<lparr>customers := JArr [], technicians := JArr [], devices := JArr [],
                        tickets := JArr []\<rparr>))"
    unfolding importAll_parsed [OF assms(1,2)] by (simp add: coalesce_def)
  moreover have "JSON_parse (js ''null'') = Inr JNull" by code_simp
  then have "importAll (js ''null'') s = (Some TypeError, s)"
    by (simp add: importAll_def adopted_def)
  ultimately show ?thesis by simp
qed

theorem importAll_non_object_witness:
  \<open>JSON_parse (js ''5'') = Inr (JNum (Fin False [5] 1)) \<and>
   importAll (js ''5'') demo0
     = (None, save (demo0\<lparr>customers := JArr [], technicians := JArr [], devices := JArr [],
                          tickets := JArr []\<rparr>)) \<and>
   JSON_parse (js ''{"a":[]}'') = Inr (JObj [(js ''a'', JArr [])]) \<and>
   importAll (js ''{"a":[]}'') demo0
     = (None, save (demo0\<lparr>customers := JArr [], technicians := JArr [], devices := JArr [],
                          tickets := JArr []\<rparr>)) \<and>
   importAll (js ''null'') demo0 = (Some TypeError, demo0)\<close>
proof -
  have p: "JSON_parse (js ''5'') = Inr (JNum (Fin False [5] 1))" by code_simp
  have q: \<open>JSON_parse (js ''{"a":[]}'') = Inr (JObj [(js ''a'', JArr [])])\<close> by code_simp
  from importAll_non_object [OF p, of demo0] importAll_non_object [OF q, of demo0] p q
  show ?thesis by (simp add: collection_keys_def)
qed

end
